theory Spec2Isabelle
  imports Complex_Main
begin

section \<open>JavaScript values that App.js computes with\<close>

text \<open>
  A JavaScript string is a \<^typ>\<open>string\<close>; a value that may be \<^verbatim>\<open>undefined\<close> or
  \<^verbatim>\<open>null\<close> is a \<^typ>\<open>string option\<close> with \<^term>\<open>None\<close> for the missing value. Numbers
  that are timestamps, coordinates or the result of \<^verbatim>\<open>Math.random()\<close> are reals; numbers
  that are frame counters are integers. The animation's subtraction, division,
  multiplication and addition round their result to the nearest IEEE double, as
  \<open>Double\<close> below does; the difference of two touch coordinates and the product that
  gives the random index are taken exactly.
\<close>

definition ToString :: "string option \<Rightarrow> string" where
  \<comment> \<open>the conversion a template literal and \<^verbatim>\<open>localStorage.setItem\<close> apply to a value\<close>
  "ToString v = (case v of None \<Rightarrow> ''undefined'' | Some s \<Rightarrow> s)"

definition truthy :: "string option \<Rightarrow> bool" where
  \<comment> \<open>\<^verbatim>\<open>if (v)\<close> on a string or a missing value: the empty string is falsy\<close>
  "truthy v = (case v of None \<Rightarrow> False | Some s \<Rightarrow> s \<noteq> [])"

definition js_index :: "'a list \<Rightarrow> int \<Rightarrow> 'a option" where
  \<comment> \<open>\<^verbatim>\<open>xs[i]\<close>: reading outside the array gives \<^verbatim>\<open>undefined\<close>\<close>
  "js_index xs i = (if 0 \<le> i \<and> i < int (length xs) then Some (xs ! nat i) else None)"

fun digits :: "nat \<Rightarrow> string" where
  "digits n =
     (if n < 10 then [''0123456789'' ! n]
      else digits (n div 10) @ [''0123456789'' ! (n mod 10)])"

definition Number_toString :: "int \<Rightarrow> string" where
  \<comment> \<open>the decimal text of an integer-valued number inside a template literal\<close>
  "Number_toString i = (if i < 0 then ''-'' @ digits (nat (- i)) else digits (nat i))"

subsection \<open>IEEE doubles\<close>

text \<open>
  The result of an arithmetic operation is the double nearest to the exact result, ties
  going to the even significand: 53 significant bits, subnormal below \<open>2 powi (- 1022)\<close>.
  Results at or beyond \<open>2 powi 1024\<close> (the infinities) and \<^verbatim>\<open>NaN\<close> are not modelled.
\<close>

fun bitlen :: "nat \<Rightarrow> nat" where
  \<comment> \<open>the number of binary digits\<close>
  "bitlen n = (if n = 0 then 0 else Suc (bitlen (n div 2)))"

declare bitlen.simps [simp del]

definition exponent_of :: "real \<Rightarrow> int" where
  \<comment> \<open>for \<open>0 < x\<close>: the \<open>e\<close> with \<open>2 powi e \<le> x < 2 powi (e + 1)\<close>\<close>
  "exponent_of x =
     (if 1 \<le> x then int (bitlen (nat \<lfloor>x\<rfloor>)) - 1
      else - int (bitlen (nat (\<lceil>1 / x\<rceil> - 1))))"

definition round_half_even :: "real \<Rightarrow> int" where
  "round_half_even x =
     (let f = \<lfloor>x\<rfloor>; d = x - of_int f
      in if d < 1 / 2 then f
         else if 1 / 2 < d then f + 1
         else if even f then f else f + 1)"

definition ulp_of :: "real \<Rightarrow> real" where
  \<comment> \<open>the distance between neighbouring doubles around \<open>x\<close>\<close>
  "ulp_of x = 2 powi (max (exponent_of \<bar>x\<bar>) (- 1022) - 52)"

definition Double :: "real \<Rightarrow> real" where
  "Double x =
     (if x = 0 then 0
      else sgn x * (ulp_of x * of_int (round_half_even (\<bar>x\<bar> / ulp_of x))))"

subsection \<open>JSON.stringify on objects of strings\<close>

datatype json = JUndefined | JString string | JObject "(string \<times> json) list"

fun join_with :: "string \<Rightarrow> string list \<Rightarrow> string" where
  "join_with sep [] = []"
| "join_with sep [x] = x"
| "join_with sep (x # y # ys) = x @ sep @ join_with sep (y # ys)"

definition hex_digit :: "nat \<Rightarrow> char" where
  "hex_digit n = ''0123456789abcdef'' ! (n mod 16)"

definition escape_char :: "char \<Rightarrow> string" where
  \<comment> \<open>ECMAScript QuoteJSONString, one character; \<^verbatim>\<open>0x5C\<close> is the backslash and
      \<^verbatim>\<open>0x22\<close> the double quote\<close>
  "escape_char c =
     (if c = CHR 0x08 then [CHR 0x5C, CHR ''b'']
      else if c = CHR 0x09 then [CHR 0x5C, CHR ''t'']
      else if c = CHR 0x0A then [CHR 0x5C, CHR ''n'']
      else if c = CHR 0x0C then [CHR 0x5C, CHR ''f'']
      else if c = CHR 0x0D then [CHR 0x5C, CHR ''r'']
      else if c = CHR 0x22 then [CHR 0x5C, CHR 0x22]
      else if c = CHR 0x5C then [CHR 0x5C, CHR 0x5C]
      else if of_char c < (0x20::nat)
        then [CHR 0x5C, CHR ''u'', CHR ''0'', CHR ''0'',
              hex_digit (of_char c div 16), hex_digit (of_char c mod 16)]
      else [c])"

definition QuoteJSONString :: "string \<Rightarrow> string" where
  "QuoteJSONString s = [CHR 0x22] @ concat (map escape_char s) @ [CHR 0x22]"

definition json_member :: "string \<times> string option \<Rightarrow> string option" where
  \<comment> \<open>a property whose value serialises to \<^verbatim>\<open>undefined\<close> is left out of the object\<close>
  "json_member kv = map_option (\<lambda>t. QuoteJSONString (fst kv) @ '':'' @ t) (snd kv)"

primrec JSON_stringify :: "json \<Rightarrow> string option" where
  "JSON_stringify JUndefined = None"
| "JSON_stringify (JString s) = Some (QuoteJSONString s)"
| "JSON_stringify (JObject kvs) =
     Some (''{'' @ join_with '','' (List.map_filter json_member
                                     (map (map_prod id JSON_stringify) kvs)) @ ''}'')"

definition json_of :: "string option \<Rightarrow> json" where
  "json_of v = (case v of None \<Rightarrow> JUndefined | Some s \<Rightarrow> JString s)"

section \<open>Configuration: the WebSocket endpoint\<close>

definition COLORS :: "string list" where
  "COLORS = [''blue'', ''red'', ''green'', ''yellow'', ''purple'', ''orange'']"

record location =
  hostname :: string
  protocol :: string
  port :: string

definition getWebSocketUrl :: "string option \<Rightarrow> location \<Rightarrow> string" where
  \<comment> \<open>the first argument is \<^verbatim>\<open>process.env.REACT_APP_WS_URL\<close>, the second
      \<^verbatim>\<open>window.location\<close>\<close>
  "getWebSocketUrl REACT_APP_WS_URL loc =
     (if truthy REACT_APP_WS_URL then ToString REACT_APP_WS_URL
      else if hostname loc = ''localhost'' \<or> hostname loc = ''127.0.0.1''
        then ''ws://localhost:3001''
      else
        (let protocol' = (if protocol loc = ''https:'' then ''wss:'' else ''ws:'');
             host = hostname loc @ (if port loc \<noteq> [] then '':'' @ port loc else [])
         in protocol' @ ''//'' @ host))"

section \<open>Color rotation\<close>

type_synonym storage = "string \<rightharpoonup> string"

definition getItem :: "storage \<Rightarrow> string \<Rightarrow> string option" where
  "getItem ls k = ls k"

definition setItem :: "storage \<Rightarrow> string \<Rightarrow> string \<Rightarrow> storage" where
  "setItem ls k v = ls(k \<mapsto> v)"

definition availableColors :: "string option \<Rightarrow> string list" where
  \<comment> \<open>line 30; \<open>lastColor\<close> is \<^verbatim>\<open>null\<close> (here \<^term>\<open>None\<close>) when nothing is stored\<close>
  "availableColors lastColor = filter (\<lambda>color. Some color \<noteq> lastColor) COLORS"

definition colorPool :: "string option \<Rightarrow> string list" where
  \<comment> \<open>line 33\<close>
  "colorPool lastColor =
     (if length (availableColors lastColor) > 0 then availableColors lastColor else COLORS)"

definition random_index :: "real \<Rightarrow> string list \<Rightarrow> int" where
  \<comment> \<open>\<^verbatim>\<open>Math.floor(Math.random() * colorPool.length)\<close>\<close>
  "random_index random pool = \<lfloor>random * real (length pool)\<rfloor>"

definition getNextColor :: "string option \<Rightarrow> real \<Rightarrow> storage \<Rightarrow> string option \<times> storage" where
  \<comment> \<open>\<open>currentColor\<close> is the function's parameter, \<open>random\<close> the value that
      \<^verbatim>\<open>Math.random()\<close> returns (by its contract \<open>0 \<le> random < 1\<close>); the result is the
      returned color and the storage after the call\<close>
  "getNextColor currentColor random ls =
     (let lastColor = getItem ls ''lastFeedbackColor'';
          pool = colorPool lastColor;
          nextColor = js_index pool (random_index random pool);
          ls' = setItem ls ''lastFeedbackColor'' (ToString nextColor)
      in (nextColor, ls'))"

fun rotations :: "(string option \<times> real) list \<Rightarrow> storage \<Rightarrow> (string option \<times> storage) list" where
  \<comment> \<open>consecutive calls, each reading the storage the previous one left; every call is
      given by its argument and its random draw, and yields its result and the storage
      after it\<close>
  "rotations [] ls = []"
| "rotations ((cur, random) # calls) ls =
     (let (c, ls') = getNextColor cur random ls in (c, ls') # rotations calls ls')"

fun adjacent_distinct :: "'a list \<Rightarrow> bool" where
  "adjacent_distinct (x # y # ys) = (x \<noteq> y \<and> adjacent_distinct (y # ys))"
| "adjacent_distinct _ = True"

definition draws_ok :: "(string option \<times> real) list \<Rightarrow> bool" where
  \<comment> \<open>every draw of the calls is a value that \<^verbatim>\<open>Math.random()\<close> can return\<close>
  "draws_ok calls = list_all (\<lambda>call. 0 \<le> snd call \<and> snd call < 1) calls"

section \<open>The App component\<close>

text \<open>
  The component's state: the values held by \<^verbatim>\<open>useState\<close> and \<^verbatim>\<open>useRef\<close>, and the
  parts of the browser that the handlers read and write (the socket, the background
  element's style, \<^verbatim>\<open>localStorage\<close>, the pending \<^verbatim>\<open>setTimeout\<close> callbacks, the
  pending animation frame, the promises of the running preload). A handler is a function
  from the state before it to the state after it; React's re-render between two events
  is the passing of the new state to the next handler.
\<close>

datatype stage = Form | Folding | Floating | Sent

record form_data =
  name :: string
  email :: string
  message :: string

datatype ready_state = CONNECTING | OPEN | CLOSING | CLOSED

record websocket =
  readyState :: ready_state
  sent :: "string list"  \<comment> \<open>the text frames handed to \<^verbatim>\<open>send\<close>, oldest first\<close>

record element =
  backgroundImage :: string
  willChange :: string

datatype callback =
    ResetAfterAnimation "string option"
      \<comment> \<open>the closure of lines 250-256, with the \<open>currentColor\<close> it captured\<close>
  | PreloadGrace
      \<comment> \<open>the closure of lines 99-102\<close>

datatype promise = Pending | Decoding | Resolved
  \<comment> \<open>one entry of \<open>imagePromises\<close>; \<open>Decoding\<close> is a pending promise whose image has
      loaded and whose \<^verbatim>\<open>img.decode()\<close> has not settled yet\<close>

record app =
  formData :: form_data
  stage :: stage
  currentImage :: int
  currentColor :: "string option"
  touchStart :: "real option"
  imagesPreloaded :: bool
  wsRef :: "websocket option"
  rafScheduled :: bool  \<comment> \<open>\<open>animate\<close> is requested for the next frame (\<open>animationRef\<close> holds its handle)\<close>
  startTimeRef :: "real option"
  backgroundRef :: "element option"
  currentFrameRef :: int
  imageCache :: "string list"
  localStorage :: storage
  timers :: "(nat \<times> callback) list"  \<comment> \<open>pending \<^verbatim>\<open>setTimeout\<close> calls: delay in ms, callback\<close>
  imagePromises :: "promise list"
  cachedImages :: "string list"  \<comment> \<open>the \<open>src\<close> of each retained image\<close>

text \<open>Lines written to the console are not part of the state.\<close>

subsection \<open>The first render and the effects that run once (lines 47-63, 114-141, 259-266)\<close>

definition image_url :: "string option \<Rightarrow> int \<Rightarrow> string" where
  \<comment> \<open>\<^verbatim>\<open>0x27\<close> is the single quote\<close>
  "image_url color i =
     ''url('' @ [CHR 0x27] @ ''/images/'' @ ToString color @ ''/'' @ Number_toString i
              @ ''.png'' @ [CHR 0x27] @ '')''"

definition getBackgroundImage :: "app \<Rightarrow> string" where
  "getBackgroundImage st =
     (if stage st = Form then image_url (currentColor st) 1
      else image_url (currentColor st) (currentImage st))"

definition first_render :: "real \<Rightarrow> storage \<Rightarrow> app" where
  \<comment> \<open>the state after the first render: \<open>currentColor\<close> is initialised by
      \<^verbatim>\<open>getNextColor()\<close>, the socket is created and not open yet\<close>
  "first_render random ls =
     (let (color, ls') = getNextColor None random ls;
          st = \<lparr>formData = \<lparr>name = [], email = [], message = []\<rparr>,
                stage = Form,
                currentImage = 0,
                currentColor = color,
                touchStart = None,
                imagesPreloaded = False,
                wsRef = Some \<lparr>readyState = CONNECTING, sent = []\<rparr>,
                rafScheduled = False,
                startTimeRef = None,
                backgroundRef = None,
                currentFrameRef = 1,
                imageCache = [],
                localStorage = ls',
                timers = [],
                imagePromises = [],
                cachedImages = []\<rparr>
      in st\<lparr>backgroundRef := Some \<lparr>backgroundImage = getBackgroundImage st, willChange = []\<rparr>\<rparr>)"

definition ws_onopen :: "app \<Rightarrow> app" where
  "ws_onopen st =
     (case wsRef st of
        None \<Rightarrow> st
      | Some ws \<Rightarrow>
          st\<lparr>wsRef := Some (ws\<lparr>readyState := OPEN,
                               sent := sent ws @ [ToString (JSON_stringify
                                 (JObject [(''type'', JString ''register''),
                                           (''clientType'', JString ''tablet'')]))]\<rparr>)\<rparr>)"

definition ws_onclose :: "app \<Rightarrow> app" where
  "ws_onclose st = st\<lparr>wsRef := map_option (\<lambda>ws. ws\<lparr>readyState := CLOSED\<rparr>) (wsRef st)\<rparr>"

subsection \<open>Image preloading (lines 65-112)\<close>

definition image_src :: "string option \<Rightarrow> int \<Rightarrow> string" where
  "image_src color i = ''/images/'' @ ToString color @ ''/'' @ Number_toString i @ ''.png''"

definition preloadImages :: "app \<Rightarrow> app" where
  \<comment> \<open>the synchronous part: the loop creates image \<open>i\<close> and its promise for \<open>i = 1..100\<close>\<close>
  "preloadImages st =
     st\<lparr>imagesPreloaded := False,
        cachedImages := map (\<lambda>i. image_src (currentColor st) (int i)) [1..<101],
        imagePromises := map (\<lambda>i. Pending) [1..<101]\<rparr>"

datatype preload_event =
    ImgLoad nat bool   \<comment> \<open>\<open>onload\<close> of image \<open>i\<close>; the flag is whether \<open>img.decode\<close> exists\<close>
  | ImgError nat       \<comment> \<open>\<open>onerror\<close> of image \<open>i\<close>\<close>
  | DecodeFulfilled nat
  | DecodeRejected nat
  | GraceTimeout       \<comment> \<open>the timer of line 99 fires\<close>

definition on_promise :: "nat \<Rightarrow> (promise \<Rightarrow> promise) \<Rightarrow> promise list \<Rightarrow> promise list" where
  \<comment> \<open>images are numbered from 1, the array from 0; there is no image outside 1..length\<close>
  "on_promise i f ps = (if 1 \<le> i \<and> i \<le> length ps then ps[i - 1 := f (ps ! (i - 1))] else ps)"

fun promise_event :: "preload_event \<Rightarrow> promise list \<Rightarrow> promise list" where
  "promise_event (ImgLoad i has_decode) ps =
     on_promise i (\<lambda>p. if has_decode then (if p = Pending then Decoding else p) else Resolved) ps"
| "promise_event (ImgError i) ps = on_promise i (\<lambda>p. Resolved) ps"
| "promise_event (DecodeFulfilled i) ps =
     on_promise i (\<lambda>p. if p = Decoding then Resolved else p) ps"
| "promise_event (DecodeRejected i) ps =
     on_promise i (\<lambda>p. if p = Decoding then Resolved else p) ps"
| "promise_event GraceTimeout ps = ps"

definition all_resolved :: "promise list \<Rightarrow> bool" where
  "all_resolved ps = list_all (\<lambda>p. p = Resolved) ps"

definition fire_grace :: "app \<Rightarrow> app" where
  \<comment> \<open>the oldest pending grace timer, if there is one, runs and is no longer pending\<close>
  "fire_grace st =
     (case find (\<lambda>t. snd t = PreloadGrace) (timers st) of
        None \<Rightarrow> st
      | Some t \<Rightarrow> st\<lparr>imagesPreloaded := True, timers := remove1 t (timers st)\<rparr>)"

definition preload_step :: "preload_event \<Rightarrow> app \<Rightarrow> app" where
  \<comment> \<open>one browser callback of the preload; the \<open>then\<close> of \<open>Promise.all\<close> runs at the
      event that resolves the last pending promise\<close>
  "preload_step ev st =
     (if ev = GraceTimeout then fire_grace st
      else
        (let ps = promise_event ev (imagePromises st);
             st1 = st\<lparr>imagePromises := ps\<rparr>
         in if all_resolved ps \<and> \<not> all_resolved (imagePromises st)
            then st1\<lparr>imageCache := cachedImages st1,
                     timers := timers st1 @ [(100, PreloadGrace)]\<rparr>
            else st1))"

fun preload_run :: "preload_event list \<Rightarrow> app \<Rightarrow> app" where
  "preload_run [] st = st"
| "preload_run (ev # evs) st = preload_run evs (preload_step ev st)"

definition grace_pending :: "app \<Rightarrow> bool" where
  "grace_pending st = list_ex (\<lambda>t. snd t = PreloadGrace) (timers st)"

fun promise_rank :: "promise \<Rightarrow> nat" where
  \<comment> \<open>how far a promise has come; no callback of the preload takes one back\<close>
  "promise_rank Pending = 0"
| "promise_rank Decoding = 1"
| "promise_rank Resolved = 2"

datatype outcome = Success | SuccessWithoutDecode | LoadFailure | DecodeFailure
  \<comment> \<open>what happens to one image; \<open>SuccessWithoutDecode\<close> is a load on a platform that has
      no \<^verbatim>\<open>img.decode\<close>\<close>

fun outcome_events :: "nat \<Rightarrow> outcome \<Rightarrow> preload_event list" where
  \<comment> \<open>the callbacks that the outcome of image \<open>i\<close> gives rise to, in their order\<close>
  "outcome_events i Success = [ImgLoad i True, DecodeFulfilled i]"
| "outcome_events i SuccessWithoutDecode = [ImgLoad i False]"
| "outcome_events i LoadFailure = [ImgError i]"
| "outcome_events i DecodeFailure = [ImgLoad i True, DecodeRejected i]"

fun occur_in_order :: "'a list \<Rightarrow> 'a list \<Rightarrow> bool" where
  \<comment> \<open>the elements of the first list occur in the second, in the same order, with
      anything in between\<close>
  "occur_in_order [] ys = True"
| "occur_in_order (x # xs) [] = False"
| "occur_in_order (x # xs) (y # ys) =
     (if x = y then occur_in_order xs ys else occur_in_order (x # xs) ys)"

definition settles :: "nat \<Rightarrow> preload_event list \<Rightarrow> bool" where
  \<comment> \<open>the callbacks of one of the four outcomes of image \<open>i\<close> occur among the events\<close>
  "settles i evs =
     list_ex (\<lambda>out. occur_in_order (outcome_events i out) evs)
       [Success, SuccessWithoutDecode, LoadFailure, DecodeFailure]"

definition frame_events :: "(nat \<Rightarrow> outcome) \<Rightarrow> preload_event list" where
  \<comment> \<open>the callbacks of all 100 images, image after image\<close>
  "frame_events oc = concat (map (\<lambda>i. outcome_events i (oc i)) [1..<101])"

subsection \<open>The folding animation (lines 143-201)\<close>

definition ANIMATION_DURATION :: real where
  "ANIMATION_DURATION = 5000"

definition TOTAL_FRAMES :: real where
  "TOTAL_FRAMES = 99"

definition startAnimation :: "app \<Rightarrow> app" where
  \<comment> \<open>the body of the effect, up to its first \<^verbatim>\<open>requestAnimationFrame\<close>\<close>
  "startAnimation st =
     (if stage st = Folding \<and> backgroundRef st \<noteq> None \<and> imagesPreloaded st
      then st\<lparr>startTimeRef := None, currentFrameRef := 1, rafScheduled := True\<rparr>
      else st)"

definition set_style :: "(element \<Rightarrow> element) \<Rightarrow> app \<Rightarrow> app" where
  \<comment> \<open>\<^verbatim>\<open>if (backgroundRef.current) backgroundRef.current.style... = ...\<close>\<close>
  "set_style f st = st\<lparr>backgroundRef := map_option f (backgroundRef st)\<rparr>"

definition recorded_start :: "real \<Rightarrow> real option \<Rightarrow> real" where
  \<comment> \<open>lines 156-158: \<^verbatim>\<open>!startTimeRef.current\<close> holds for \<^verbatim>\<open>null\<close> and for the number 0\<close>
  "recorded_start timestamp ref =
     (case ref of None \<Rightarrow> timestamp | Some s \<Rightarrow> if s = 0 then timestamp else s)"

definition progress_of :: "real \<Rightarrow> real" where
  \<comment> \<open>line 161\<close>
  "progress_of elapsed = min (Double (elapsed / ANIMATION_DURATION)) 1"

definition frameNumber_of :: "real \<Rightarrow> int" where
  \<comment> \<open>line 162; \<^verbatim>\<open>Math.floor\<close> is exact, and the sum is an integer again\<close>
  "frameNumber_of progress =
     \<lfloor>Double (of_int \<lfloor>Double (progress * TOTAL_FRAMES)\<rfloor> + 1)\<rfloor>"

definition update_frame :: "int \<Rightarrow> app \<Rightarrow> app" where
  \<comment> \<open>lines 165-176\<close>
  "update_frame frameNumber st =
     (if frameNumber \<noteq> currentFrameRef st \<and> backgroundRef st \<noteq> None
      then
        (let st1 = st\<lparr>currentFrameRef := frameNumber\<rparr>;
             st2 = (if frameNumber = 1
                    then set_style (\<lambda>el. el\<lparr>willChange := ''background-image''\<rparr>) st1
                    else st1)
         in set_style (\<lambda>el. el\<lparr>backgroundImage := image_url (currentColor st) frameNumber\<rparr>) st2)
      else st)"

definition animate :: "real \<Rightarrow> app \<Rightarrow> app" where
  \<comment> \<open>one call of the frame callback: the request that led to it is used up\<close>
  "animate timestamp st0 =
     (let st = st0\<lparr>rafScheduled := False\<rparr>;
          st1 = st\<lparr>startTimeRef := Some (recorded_start timestamp (startTimeRef st))\<rparr>;
          elapsed = Double (timestamp - recorded_start timestamp (startTimeRef st));
          progress = progress_of elapsed;
          frameNumber = frameNumber_of progress;
          st2 = update_frame frameNumber st1
      in if progress < 1 then st2\<lparr>rafScheduled := True\<rparr>
         else (set_style (\<lambda>el. el\<lparr>willChange := ''auto''\<rparr>) st2)
                \<lparr>currentImage := 100, stage := Floating\<rparr>)"

fun frames_shown :: "real list \<Rightarrow> app \<Rightarrow> int list" where
  \<comment> \<open>the frame number on display after each callback of one run, at the given timestamps;
      the run goes on as long as a callback is requested\<close>
  "frames_shown [] st = []"
| "frames_shown (t # ts) st =
     (if rafScheduled st
      then currentFrameRef (animate t st) # frames_shown ts (animate t st)
      else [])"

fun images_shown :: "real list \<Rightarrow> app \<Rightarrow> string option list" where
  \<comment> \<open>the background image of the element after each callback of the run\<close>
  "images_shown [] st = []"
| "images_shown (t # ts) st =
     (if rafScheduled st
      then map_option backgroundImage (backgroundRef (animate t st)) # images_shown ts (animate t st)
      else [])"

subsection \<open>The handlers (lines 203-257)\<close>

definition handleSubmit :: "app \<Rightarrow> app" where
  "handleSubmit st =
     (if name (formData st) \<noteq> [] \<and> email (formData st) \<noteq> [] \<and> message (formData st) \<noteq> []
      then
        (if \<not> imagesPreloaded st then st
         else st\<lparr>stage := Folding, currentImage := 1\<rparr>)
      else st)"

definition feedback_message :: "app \<Rightarrow> json" where
  "feedback_message st =
     JObject [(''type'', JString ''new_feedback''),
              (''feedback'', JObject [(''name'', JString (name (formData st))),
                                      (''email'', JString (email (formData st))),
                                      (''message'', JString (message (formData st))),
                                      (''color'', json_of (currentColor st))])]"

definition ws_send :: "string option \<Rightarrow> websocket \<Rightarrow> websocket" where
  \<comment> \<open>\<^verbatim>\<open>send\<close> on an open socket\<close>
  "ws_send data ws = ws\<lparr>sent := sent ws @ [ToString data]\<rparr>"

definition ws_is_open :: "app \<Rightarrow> bool" where
  \<comment> \<open>\<^verbatim>\<open>wsRef.current && wsRef.current.readyState === WebSocket.OPEN\<close>\<close>
  "ws_is_open st = (case wsRef st of None \<Rightarrow> False | Some ws \<Rightarrow> readyState ws = OPEN)"

definition handleSwipeUp :: "app \<Rightarrow> app" where
  "handleSwipeUp st =
     (let st1 = (if ws_is_open st
                 then st\<lparr>wsRef := map_option (ws_send (JSON_stringify (feedback_message st)))
                                                (wsRef st)\<rparr>
                 else st);
          st2 = st1\<lparr>stage := Sent\<rparr>
      in st2\<lparr>timers := timers st2 @ [(2000, ResetAfterAnimation (currentColor st))]\<rparr>)"

definition handleTouchStart :: "real \<Rightarrow> app \<Rightarrow> app" where
  \<comment> \<open>the argument is \<^verbatim>\<open>e.touches[0].clientY\<close>\<close>
  "handleTouchStart clientY st =
     (if stage st = Floating then st\<lparr>touchStart := Some clientY\<rparr> else st)"

definition handleTouchMove :: "real \<Rightarrow> app \<Rightarrow> app" where
  "handleTouchMove clientY st =
     (if stage st = Floating
      then (case touchStart st of
              None \<Rightarrow> st
            | Some start \<Rightarrow>
                (let touchEnd = clientY; diff = start - touchEnd
                 in if diff > 100 then handleSwipeUp st else st))
      else st)"

definition resetAfterAnimation :: "string option \<Rightarrow> real \<Rightarrow> app \<Rightarrow> app" where
  \<comment> \<open>the timer callback of \<open>handleSwipeUp\<close>; \<open>captured\<close> is the \<open>currentColor\<close> of the
      render that scheduled it, \<open>random\<close> the draw of the rotation. The preload effect
      runs again when \<open>currentColor\<close> has changed, after its cleanup.\<close>
  "resetAfterAnimation captured random st =
     (let (next, ls') = getNextColor captured random (localStorage st);
          st1 = st\<lparr>formData := \<lparr>name = [], email = [], message = []\<rparr>,
                   stage := Form,
                   currentImage := 0,
                   currentColor := next,
                   touchStart := None,
                   localStorage := ls'\<rparr>
      in if next \<noteq> currentColor st then preloadImages (st1\<lparr>imageCache := []\<rparr>) else st1)"

section \<open>Properties of the color rotation\<close>


lemma availableColors_cases:
  "availableColors lastColor = COLORS \<or> (\<exists>c \<in> set COLORS. lastColor = Some c \<and> length (availableColors lastColor) = 5)"
  by (cases lastColor) (auto simp: availableColors_def COLORS_def)

lemma availableColors_nonempty: "availableColors lastColor \<noteq> []"
  using availableColors_cases [of lastColor] by (auto simp: COLORS_def)

lemma colorPool_eq: "colorPool lastColor = availableColors lastColor"
  using availableColors_nonempty [of lastColor] by (simp add: colorPool_def)

lemma colorPool_subset: "set (colorPool lastColor) \<subseteq> set COLORS"
  by (auto simp: colorPool_eq availableColors_def)

lemma colorPool_excludes: "c \<in> set (colorPool lastColor) \<Longrightarrow> Some c \<noteq> lastColor"
  by (auto simp: colorPool_eq availableColors_def)

lemma random_index_bounds:
  assumes "0 \<le> random" "random < 1" "pool \<noteq> []"
  shows "0 \<le> random_index random pool \<and> random_index random pool < int (length pool)"
proof -
  have n: "0 < real (length pool)" using assms(3) by simp
  have "0 \<le> random * real (length pool)" using assms(1) by simp
  moreover have "random * real (length pool) < real (length pool)"
    using assms(2) n by simp
  ultimately show ?thesis
    unfolding random_index_def by (simp add: floor_less_iff)
qed

lemma getNextColor_result:
  assumes "0 \<le> random" "random < 1"
  shows "\<exists>c. getNextColor cur random ls = (Some c, setItem ls ''lastFeedbackColor'' c)
            \<and> c \<in> set (colorPool (getItem ls ''lastFeedbackColor''))"
proof -
  let ?pool = "colorPool (getItem ls ''lastFeedbackColor'')"
  have ne: "?pool \<noteq> []" by (simp add: colorPool_eq availableColors_nonempty)
  from random_index_bounds [OF assms ne]
  have b: "0 \<le> random_index random ?pool" "random_index random ?pool < int (length ?pool)"
    by simp_all
  then have "nat (random_index random ?pool) < length ?pool" by linarith
  then have "?pool ! nat (random_index random ?pool) \<in> set ?pool" by (rule nth_mem)
  with b show ?thesis
    by (simp add: getNextColor_def Let_def js_index_def ToString_def)
qed



lemma rotations_head:
  assumes "0 \<le> random" "random < 1"
  shows "\<exists>c. rotations ((cur, random) # calls) ls
              = (Some c, setItem ls ''lastFeedbackColor'' c)
                  # rotations calls (setItem ls ''lastFeedbackColor'' c)
            \<and> c \<in> set COLORS \<and> Some c \<noteq> getItem ls ''lastFeedbackColor''"
proof -
  from getNextColor_result [OF assms, of cur ls] obtain c where
    c: "getNextColor cur random ls = (Some c, setItem ls ''lastFeedbackColor'' c)"
       "c \<in> set (colorPool (getItem ls ''lastFeedbackColor''))"
    by blast
  from c(2) have "c \<in> set COLORS" using colorPool_subset by blast
  moreover from c(2) have "Some c \<noteq> getItem ls ''lastFeedbackColor''"
    by (rule colorPool_excludes)
  ultimately show ?thesis using c(1) by simp
qed

lemma getItem_setItem: "getItem (setItem ls k v) k = Some v"
  by (simp add: getItem_def setItem_def)

lemma rotations_persisted:
  "draws_ok calls \<Longrightarrow> (c, ls') \<in> set (rotations calls ls)
     \<Longrightarrow> c \<noteq> None \<and> getItem ls' ''lastFeedbackColor'' = c"
proof (induction calls arbitrary: ls)
  case Nil
  then show ?case by simp
next
  case (Cons call calls)
  obtain cur random where call: "call = (cur, random)" by (cases call)
  from Cons.prems(1) call have r: "0 \<le> random" "random < 1" and rest: "draws_ok calls"
    by (simp_all add: draws_ok_def)
  from rotations_head [OF r, of cur calls ls] obtain x where
    x: "rotations ((cur, random) # calls) ls
          = (Some x, setItem ls ''lastFeedbackColor'' x)
              # rotations calls (setItem ls ''lastFeedbackColor'' x)"
    by blast
  have "(c, ls') \<in> set ((Some x, setItem ls ''lastFeedbackColor'' x)
                            # rotations calls (setItem ls ''lastFeedbackColor'' x))"
    using Cons.prems(2) unfolding call x .
  then consider "(c, ls') = (Some x, setItem ls ''lastFeedbackColor'' x)"
    | "(c, ls') \<in> set (rotations calls (setItem ls ''lastFeedbackColor'' x))"
    by auto
  then show ?case
  proof cases
    case 1
    then show ?thesis by (simp add: getItem_setItem)
  next
    case 2
    with Cons.IH [OF rest] show ?thesis by blast
  qed
qed

lemma rotations_adjacent:
  "draws_ok calls \<Longrightarrow> adjacent_distinct (getItem ls ''lastFeedbackColor'' # map fst (rotations calls ls))"
proof (induction calls arbitrary: ls)
  case Nil
  then show ?case by simp
next
  case (Cons call calls)
  obtain cur random where call: "call = (cur, random)" by (cases call)
  from Cons.prems(1) call have r: "0 \<le> random" "random < 1" and rest: "draws_ok calls"
    by (simp_all add: draws_ok_def)
  from rotations_head [OF r, of cur calls ls] obtain x where
    x: "rotations ((cur, random) # calls) ls
          = (Some x, setItem ls ''lastFeedbackColor'' x)
              # rotations calls (setItem ls ''lastFeedbackColor'' x)"
      "Some x \<noteq> getItem ls ''lastFeedbackColor''"
    by blast
  from Cons.IH [OF rest, of "setItem ls ''lastFeedbackColor'' x"]
  have "adjacent_distinct (Some x # map fst (rotations calls (setItem ls ''lastFeedbackColor'' x)))"
    by (simp add: getItem_setItem)
  with x(2) show ?case unfolding call x(1) by simp
qed

lemma adjacent_distinct_tl: "adjacent_distinct (x # xs) \<Longrightarrow> adjacent_distinct xs"
  by (cases xs) simp_all

text \<open>
  Claim C2. In a sequence of consecutive calls of \<open>getNextColor\<close>, each reading the storage
  left by the call before it and drawing a random value in \<open>[0, 1)\<close>, no two adjacent
  returned colors are equal, and after every call the stored \<open>lastFeedbackColor\<close> is
  the color that the call returned.
\<close>

theorem no_repeat_rotation:
  assumes "draws_ok calls"
  shows "adjacent_distinct (map fst (rotations calls ls))
       \<and> (\<forall>(c, ls') \<in> set (rotations calls ls).
             c \<noteq> None \<and> getItem ls' ''lastFeedbackColor'' = c)"
  using rotations_adjacent [OF assms, of ls] rotations_persisted [OF assms]
  by (auto dest: adjacent_distinct_tl)

theorem no_repeat_rotation_witness:
  "draws_ok [(None, 0), (Some ''blue'', 0), (Some ''red'', 1/2)]
   \<and> map fst (rotations [(None, 0), (Some ''blue'', 0), (Some ''red'', 1/2)] Map.empty)
       = [Some ''blue'', Some ''red'', Some ''yellow'']
   \<and> adjacent_distinct (map fst (rotations [(None, 0), (Some ''blue'', 0), (Some ''red'', 1/2)] Map.empty))"
  using no_repeat_rotation [of "[(None, 0), (Some ''blue'', 0), (Some ''red'', 1/2)]" Map.empty]
  by (simp add: draws_ok_def getNextColor_def colorPool_def availableColors_def COLORS_def
      random_index_def js_index_def getItem_def setItem_def ToString_def Let_def)

text \<open>
  Claim C10. Whatever is stored under \<open>lastFeedbackColor\<close> (nothing, one of the six colors,
  any other string), and for every random draw in \<open>[0, 1)\<close>: the filtered list is not
  empty, so the pool is the filtered list and the fallback to \<open>COLORS\<close> is not taken; the
  random index lies inside the pool; and the call returns one of the six colors. The
  function is a non-recursive definition, so it returns on every input.
\<close>

theorem getNextColor_total:
  assumes "0 \<le> random" "random < 1"
  shows "availableColors (getItem ls ''lastFeedbackColor'') \<noteq> []
       \<and> colorPool (getItem ls ''lastFeedbackColor'') = availableColors (getItem ls ''lastFeedbackColor'')
       \<and> 0 \<le> random_index random (colorPool (getItem ls ''lastFeedbackColor''))
       \<and> random_index random (colorPool (getItem ls ''lastFeedbackColor''))
            < int (length (colorPool (getItem ls ''lastFeedbackColor'')))
       \<and> (\<exists>c. fst (getNextColor cur random ls) = Some c
              \<and> c \<in> {''blue'', ''red'', ''green'', ''yellow'', ''purple'', ''orange''})"
proof -
  let ?last = "getItem ls ''lastFeedbackColor''"
  have ne: "colorPool ?last \<noteq> []" by (simp add: colorPool_eq availableColors_nonempty)
  from getNextColor_result [OF assms, of cur ls] obtain c where
    c: "getNextColor cur random ls = (Some c, setItem ls ''lastFeedbackColor'' c)"
       "c \<in> set (colorPool ?last)"
    by blast
  from c(2) colorPool_subset have "c \<in> set COLORS" by blast
  then have "c \<in> {''blue'', ''red'', ''green'', ''yellow'', ''purple'', ''orange''}"
    by (simp add: COLORS_def)
  with c(1) random_index_bounds [OF assms ne] show ?thesis
    by (simp add: availableColors_nonempty colorPool_eq)
qed

theorem getNextColor_total_witness:
  "(0::real) \<le> 999/1000 \<and> (999/1000::real) < 1
   \<and> random_index (999/1000) (colorPool (getItem [''lastFeedbackColor'' \<mapsto> ''teal''] ''lastFeedbackColor'')) = 5
   \<and> fst (getNextColor None (999/1000) [''lastFeedbackColor'' \<mapsto> ''teal'']) = Some ''orange''"
  using getNextColor_total [of "999/1000" "[''lastFeedbackColor'' \<mapsto> ''teal'']" None]
  by (simp add: getNextColor_def colorPool_def availableColors_def COLORS_def
      random_index_def js_index_def getItem_def setItem_def ToString_def Let_def)

text \<open>
  Claim C3. The argument of \<open>getNextColor\<close> is never read: the color that is excluded is the
  stored one. With \<open>red\<close> stored (or nothing stored), the current color \<open>blue\<close> passed as
  the argument and the random draw 0, the call returns \<open>blue\<close> again, and the reset that
  follows a swipe shows \<open>blue\<close> after \<open>blue\<close>. The result for any argument is the result
  for any other.
\<close>

theorem getNextColor_ignores_argument:
  "getNextColor (Some ''blue'') 0 [''lastFeedbackColor'' \<mapsto> ''red'']
     = (Some ''blue'', [''lastFeedbackColor'' \<mapsto> ''blue''])
   \<and> fst (getNextColor (Some ''blue'') 0 Map.empty) = Some ''blue''
   \<and> currentColor ((first_render 0 Map.empty)\<lparr>localStorage := [''lastFeedbackColor'' \<mapsto> ''red'']\<rparr>)
       = Some ''blue''
   \<and> currentColor (resetAfterAnimation (Some ''blue'') 0
         ((first_render 0 Map.empty)\<lparr>localStorage := [''lastFeedbackColor'' \<mapsto> ''red'']\<rparr>))
       = Some ''blue''
   \<and> getNextColor cur random ls = getNextColor cur' random ls"
  by (simp add: resetAfterAnimation_def first_render_def getNextColor_def colorPool_def
      availableColors_def COLORS_def random_index_def js_index_def getItem_def setItem_def
      ToString_def Let_def)

section \<open>Properties of the component\<close>

lemma first_render_fields:
  "backgroundRef (first_render r ls) \<noteq> None"
  "stage (first_render r ls) = Form"
  "touchStart (first_render r ls) = None"
  "wsRef (first_render r ls) = Some \<lparr>readyState = CONNECTING, sent = []\<rparr>"
  "timers (first_render r ls) = []"
  "currentFrameRef (first_render r ls) = 1"
  by (simp_all add: first_render_def split: prod.splits)


subsection \<open>Endpoint and handlers\<close>

text \<open>
  Claim C1. While the form is shown (\<open>stage = Form\<close>), \<open>handleSubmit\<close> moves the stage to
  \<open>Folding\<close> exactly when the three fields are non-empty and \<open>imagesPreloaded\<close> is set;
  then it also sets \<open>currentImage\<close> to 1 and changes nothing else. In every other case the
  state after the handler is the state before it, so the stage is still \<open>Form\<close>.
\<close>

theorem handleSubmit_gating:
  assumes "stage st = Form"
  shows "(stage (handleSubmit st) = Folding
            \<longleftrightarrow> name (formData st) \<noteq> [] \<and> email (formData st) \<noteq> []
                  \<and> message (formData st) \<noteq> [] \<and> imagesPreloaded st)
       \<and> (name (formData st) \<noteq> [] \<and> email (formData st) \<noteq> []
            \<and> message (formData st) \<noteq> [] \<and> imagesPreloaded st
            \<longrightarrow> handleSubmit st = st\<lparr>stage := Folding, currentImage := 1\<rparr>)
       \<and> (\<not> (name (formData st) \<noteq> [] \<and> email (formData st) \<noteq> []
               \<and> message (formData st) \<noteq> [] \<and> imagesPreloaded st)
            \<longrightarrow> handleSubmit st = st \<and> stage (handleSubmit st) = Form)"
  using assms by (simp add: handleSubmit_def)

theorem handleSubmit_gating_witness:
  "stage ((first_render 0 Map.empty)
            \<lparr>formData := \<lparr>name = ''Ada'', email = [], message = ''Great demo''\<rparr>,
             imagesPreloaded := True\<rparr>) = Form
   \<and> stage (handleSubmit ((first_render 0 Map.empty)
            \<lparr>formData := \<lparr>name = ''Ada'', email = [], message = ''Great demo''\<rparr>,
             imagesPreloaded := True\<rparr>)) = Form
   \<and> stage (handleSubmit ((first_render 0 Map.empty)
            \<lparr>formData := \<lparr>name = ''Ada'', email = ''ada@example.com'', message = ''Great demo''\<rparr>,
             imagesPreloaded := False\<rparr>)) = Form
   \<and> stage (handleSubmit ((first_render 0 Map.empty)
            \<lparr>formData := \<lparr>name = ''Ada'', email = ''ada@example.com'', message = ''Great demo''\<rparr>,
             imagesPreloaded := True\<rparr>)) = Folding"
  using handleSubmit_gating [of "(first_render 0 Map.empty)
            \<lparr>formData := \<lparr>name = ''Ada'', email = [], message = ''Great demo''\<rparr>,
             imagesPreloaded := True\<rparr>"]
    handleSubmit_gating [of "(first_render 0 Map.empty)
            \<lparr>formData := \<lparr>name = ''Ada'', email = ''ada@example.com'', message = ''Great demo''\<rparr>,
             imagesPreloaded := False\<rparr>"]
    handleSubmit_gating [of "(first_render 0 Map.empty)
            \<lparr>formData := \<lparr>name = ''Ada'', email = ''ada@example.com'', message = ''Great demo''\<rparr>,
             imagesPreloaded := True\<rparr>"]
  by (simp add: first_render_fields)

text \<open>
  Claim C6. A configured URL (a non-empty \<^verbatim>\<open>REACT_APP_WS_URL\<close>; the code tests it for
  truthiness, so the empty string counts as not configured) is returned as it is, whatever
  the host. Without one, the hosts \<open>localhost\<close> and \<open>127.0.0.1\<close> give
  \<open>ws://localhost:3001\<close>; any other host gives \<open>wss://\<close> for the protocol \<open>https:\<close> and
  \<open>ws://\<close> otherwise, then the host name, then a colon and the port only when the port is
  not empty. Host \<open>app.example.com\<close> over \<open>https:\<close> without a port gives
  \<open>wss://app.example.com\<close>.
\<close>

theorem getWebSocketUrl_precedence:
  "(env = Some u \<and> u \<noteq> [] \<longrightarrow> getWebSocketUrl env loc = u)
   \<and> ((env = None \<or> env = Some []) \<and> (hostname loc = ''localhost'' \<or> hostname loc = ''127.0.0.1'')
        \<longrightarrow> getWebSocketUrl env loc = ''ws://localhost:3001'')
   \<and> ((env = None \<or> env = Some []) \<and> hostname loc \<noteq> ''localhost'' \<and> hostname loc \<noteq> ''127.0.0.1''
        \<longrightarrow> getWebSocketUrl env loc
              = (if protocol loc = ''https:'' then ''wss://'' else ''ws://'') @ hostname loc
                  @ (if port loc = [] then [] else '':'' @ port loc))
   \<and> getWebSocketUrl None \<lparr>hostname = ''app.example.com'', protocol = ''https:'', port = []\<rparr>
        = ''wss://app.example.com''"
  by (auto simp: getWebSocketUrl_def truthy_def ToString_def Let_def)

theorem getWebSocketUrl_precedence_witness:
  "getWebSocketUrl (Some ''wss://collector.example.org/feed'')
       \<lparr>hostname = ''localhost'', protocol = ''http:'', port = ''3000''\<rparr>
     = ''wss://collector.example.org/feed''
   \<and> getWebSocketUrl None \<lparr>hostname = ''127.0.0.1'', protocol = ''https:'', port = ''3000''\<rparr>
     = ''ws://localhost:3001''
   \<and> getWebSocketUrl None \<lparr>hostname = ''kiosk.example.com'', protocol = ''http:'', port = ''8080''\<rparr>
     = ''ws://kiosk.example.com:8080''"
  using getWebSocketUrl_precedence [of "Some ''wss://collector.example.org/feed''"
          "''wss://collector.example.org/feed''"
          "\<lparr>hostname = ''localhost'', protocol = ''http:'', port = ''3000''\<rparr>"]
    getWebSocketUrl_precedence [of None "[]"
          "\<lparr>hostname = ''127.0.0.1'', protocol = ''https:'', port = ''3000''\<rparr>"]
    getWebSocketUrl_precedence [of None "[]"
          "\<lparr>hostname = ''kiosk.example.com'', protocol = ''http:'', port = ''8080''\<rparr>"]
  by simp

text \<open>
  Claim C7. \<open>handleSwipeUp\<close> always moves the stage to \<open>Sent\<close> and schedules the reset; the
  state after it differs from that only in the socket. When the socket is missing or not
  open, the socket is untouched (nothing is sent, nothing is kept for later: the only
  timer added is the reset), and the handler has no failing branch.
\<close>

theorem handleSwipeUp_dropped_send:
  "stage (handleSwipeUp st) = Sent
   \<and> handleSwipeUp st
       = (st\<lparr>stage := Sent, timers := timers st @ [(2000, ResetAfterAnimation (currentColor st))]\<rparr>)
           \<lparr>wsRef := wsRef (handleSwipeUp st)\<rparr>
   \<and> (\<not> ws_is_open st \<longrightarrow>
        wsRef (handleSwipeUp st) = wsRef st
        \<and> handleSwipeUp st
            = st\<lparr>stage := Sent, timers := timers st @ [(2000, ResetAfterAnimation (currentColor st))]\<rparr>)"
  by (simp add: handleSwipeUp_def Let_def)

theorem handleSwipeUp_dropped_send_witness:
  "\<not> ws_is_open ((ws_onclose (ws_onopen (first_render 0 Map.empty)))\<lparr>stage := Floating\<rparr>)
   \<and> map_option sent (wsRef (handleSwipeUp
         ((ws_onclose (ws_onopen (first_render 0 Map.empty)))\<lparr>stage := Floating\<rparr>)))
       = map_option sent (wsRef (ws_onopen (first_render 0 Map.empty)))
   \<and> stage (handleSwipeUp
         ((ws_onclose (ws_onopen (first_render 0 Map.empty)))\<lparr>stage := Floating\<rparr>)) = Sent
   \<and> timers (handleSwipeUp
         ((ws_onclose (ws_onopen (first_render 0 Map.empty)))\<lparr>stage := Floating\<rparr>))
       = [(2000, ResetAfterAnimation (currentColor (first_render 0 Map.empty)))]"
  using handleSwipeUp_dropped_send
          [of "(ws_onclose (ws_onopen (first_render 0 Map.empty)))\<lparr>stage := Floating\<rparr>"]
  by (simp add: ws_is_open_def ws_onclose_def ws_onopen_def first_render_fields)

text \<open>
  Claim C8. In stage \<open>Floating\<close> with a recorded start coordinate \<open>y0\<close>, a move to \<open>y\<close>
  commits (runs \<open>handleSwipeUp\<close>) exactly when \<open>y0 - y > 100\<close>: a difference of 100 leaves
  the state as it is, a difference of 101 commits. In any other stage, touch start and
  touch move leave the state as it is.
\<close>

theorem swipe_threshold:
  "(stage st = Floating \<and> touchStart st = Some y0 \<longrightarrow>
      (y0 - y = 100 \<longrightarrow> handleTouchMove y st = st)
      \<and> (y0 - y = 101 \<longrightarrow> handleTouchMove y st = handleSwipeUp st \<and> stage (handleTouchMove y st) = Sent)
      \<and> (handleTouchMove y st = handleSwipeUp st \<longleftrightarrow> y0 - y > 100)
      \<and> (handleTouchMove y st = st \<longleftrightarrow> y0 - y \<le> 100))
   \<and> (stage st \<noteq> Floating \<longrightarrow> handleTouchStart y st = st \<and> handleTouchMove y st = st)"
proof -
  have "stage (handleSwipeUp st) = Sent" by (simp add: handleSwipeUp_def Let_def)
  then have ne: "stage st = Floating \<Longrightarrow> handleSwipeUp st \<noteq> st" by auto
  show ?thesis
    using ne by (auto simp: handleTouchMove_def handleTouchStart_def Let_def handleSwipeUp_def)
qed

theorem swipe_threshold_witness:
  "handleTouchMove 300 ((first_render 0 Map.empty)\<lparr>stage := Floating, touchStart := Some 400\<rparr>)
     = (first_render 0 Map.empty)\<lparr>stage := Floating, touchStart := Some 400\<rparr>
   \<and> stage (handleTouchMove 299
        ((first_render 0 Map.empty)\<lparr>stage := Floating, touchStart := Some 400\<rparr>)) = Sent
   \<and> handleTouchStart 400 (first_render 0 Map.empty) = first_render 0 Map.empty
   \<and> handleTouchMove 0 ((first_render 0 Map.empty)\<lparr>stage := Sent, touchStart := Some 400\<rparr>)
     = (first_render 0 Map.empty)\<lparr>stage := Sent, touchStart := Some 400\<rparr>"
  using swipe_threshold [of "(first_render 0 Map.empty)\<lparr>stage := Floating, touchStart := Some 400\<rparr>"
          400 300]
    swipe_threshold [of "(first_render 0 Map.empty)\<lparr>stage := Floating, touchStart := Some 400\<rparr>"
          400 299]
    swipe_threshold [of "first_render 0 Map.empty" 0 400]
    swipe_threshold [of "(first_render 0 Map.empty)\<lparr>stage := Sent, touchStart := Some 400\<rparr>"
          400 0]
  by (auto simp: first_render_fields)

subsection \<open>The feedback message\<close>

lemma JSON_stringify_feedback:
  \<open>JSON_stringify
      (JObject [(''type'', JString ''new_feedback''),
                (''feedback'', JObject [(''name'', JString n), (''email'', JString e),
                                        (''message'', JString m), (''color'', JString c)])])
    = Some (''{"type":"new_feedback","feedback":{"name":'' @ QuoteJSONString n
            @ '',"email":'' @ QuoteJSONString e
            @ '',"message":'' @ QuoteJSONString m
            @ '',"color":'' @ QuoteJSONString c @ ''}}'')\<close>
  by (simp add: List.map_filter_def json_member_def QuoteJSONString_def escape_char_def)

text \<open>
  Claim C5. When the socket is open and the current color is \<open>color\<close>, the frame that
  \<open>handleSwipeUp\<close> sends is the serialisation of the object with \<open>type\<close>
  \<open>new_feedback\<close> and \<open>feedback\<close> holding the three form fields and the color, in this
  order: the text spelled out in the last conjunct.
\<close>

theorem feedback_payload:
  assumes \<open>wsRef st = Some ws\<close> and \<open>readyState ws = OPEN\<close> and \<open>currentColor st = Some color\<close>
  shows \<open>feedback_message st
           = JObject [(''type'', JString ''new_feedback''),
                      (''feedback'', JObject [(''name'', JString (name (formData st))),
                                              (''email'', JString (email (formData st))),
                                              (''message'', JString (message (formData st))),
                                              (''color'', JString color)])]
         \<and> wsRef (handleSwipeUp st)
           = Some (ws\<lparr>sent := sent ws @ [ToString (JSON_stringify (feedback_message st))]\<rparr>)
         \<and> ToString (JSON_stringify (feedback_message st))
           = ''{"type":"new_feedback","feedback":{"name":'' @ QuoteJSONString (name (formData st))
               @ '',"email":'' @ QuoteJSONString (email (formData st))
               @ '',"message":'' @ QuoteJSONString (message (formData st))
               @ '',"color":'' @ QuoteJSONString color @ ''}}''\<close>
proof -
  have msg: \<open>feedback_message st
           = JObject [(''type'', JString ''new_feedback''),
                      (''feedback'', JObject [(''name'', JString (name (formData st))),
                                              (''email'', JString (email (formData st))),
                                              (''message'', JString (message (formData st))),
                                              (''color'', JString color)])]\<close>
    using assms(3) by (simp add: feedback_message_def json_of_def)
  have sent: \<open>wsRef (handleSwipeUp st)
           = Some (ws\<lparr>sent := sent ws @ [ToString (JSON_stringify (feedback_message st))]\<rparr>)\<close>
    using assms(1,2) by (simp add: handleSwipeUp_def ws_is_open_def ws_send_def Let_def)
  have ser: \<open>ToString (JSON_stringify (feedback_message st))
           = ''{"type":"new_feedback","feedback":{"name":'' @ QuoteJSONString (name (formData st))
               @ '',"email":'' @ QuoteJSONString (email (formData st))
               @ '',"message":'' @ QuoteJSONString (message (formData st))
               @ '',"color":'' @ QuoteJSONString color @ ''}}''\<close>
    unfolding msg JSON_stringify_feedback by (simp add: ToString_def)
  from msg sent ser show ?thesis by blast
qed

theorem feedback_payload_witness:
  \<open>map_option sent (wsRef (handleSwipeUp
      ((ws_onopen (first_render (2/5) Map.empty))
           \<lparr>formData := \<lparr>name = ''Ada'', email = ''ada@example.com'', message = ''Great demo''\<rparr>,
            stage := Floating, currentImage := 100, imagesPreloaded := True\<rparr>)))
    = Some [''{"type":"register","clientType":"tablet"}'',
            ''{"type":"new_feedback","feedback":{"name":"Ada","email":"ada@example.com","message":"Great demo","color":"green"}}'']\<close>
  using feedback_payload [of
      \<open>(ws_onopen (first_render (2/5) Map.empty))
           \<lparr>formData := \<lparr>name = ''Ada'', email = ''ada@example.com'', message = ''Great demo''\<rparr>,
            stage := Floating, currentImage := 100, imagesPreloaded := True\<rparr>\<close>
      \<open>\<lparr>readyState = OPEN, sent = [''{"type":"register","clientType":"tablet"}'']\<rparr>\<close>
      \<open>''green''\<close>]
  by (simp add: ws_onopen_def first_render_def getNextColor_def colorPool_def availableColors_def
      COLORS_def random_index_def js_index_def getItem_def setItem_def ToString_def Let_def
      List.map_filter_def json_member_def QuoteJSONString_def escape_char_def)

subsection \<open>Doubles and the animation\<close>

lemma bitlen_0 [simp]: "bitlen 0 = 0"
  by (simp add: bitlen.simps)

lemma bitlen_pos: "0 < n \<Longrightarrow> bitlen n = Suc (bitlen (n div 2))"
  by (subst bitlen.simps) simp

lemma bitlen_bounds: "0 < n \<Longrightarrow> 2 ^ (bitlen n - 1) \<le> n \<and> n < 2 ^ bitlen n"
proof (induction n rule: bitlen.induct)
  case (1 n)
  show ?case
  proof (cases "n div 2 = 0")
    case True
    with "1.prems" have "n = 1" by (simp add: div_eq_0_iff) 
    then show ?thesis by (simp add: bitlen_pos)
  next
    case False
    then have pos: "0 < n div 2" by simp
    from "1.IH" [OF _ pos] "1.prems"
    have ih: "2 ^ (bitlen (n div 2) - 1) \<le> n div 2" "n div 2 < 2 ^ bitlen (n div 2)" by simp_all
    have b: "bitlen n = Suc (bitlen (n div 2))" using "1.prems" by (rule bitlen_pos)
    have bp: "0 < bitlen (n div 2)" using pos by (simp add: bitlen_pos)
    have "2 ^ (bitlen n - 1) = 2 * 2 ^ (bitlen (n div 2) - 1)"
      using bp by (simp add: b flip: power_Suc)
    also have "\<dots> \<le> 2 * (n div 2)" using ih(1) by simp
    also have "\<dots> \<le> n" by simp
    finally have lo: "2 ^ (bitlen n - 1) \<le> n" .
    have "n < 2 * (n div 2) + 2" by presburger
    also have "\<dots> \<le> 2 * 2 ^ bitlen (n div 2)" using ih(2) by simp
    finally have "n < 2 ^ bitlen n" by (simp add: b)
    with lo show ?thesis by simp
  qed
qed


lemma exponent_of_bounds:
  assumes "0 < x"
  shows "2 powi exponent_of x \<le> x \<and> x < 2 powi (exponent_of x + 1)"
proof (cases "1 \<le> x")
  case True
  let ?n = "nat \<lfloor>x\<rfloor>"
  have n: "0 < ?n" using True by simp
  have e: "exponent_of x = int (bitlen ?n) - 1" using True by (simp add: exponent_of_def)
  have bp: "0 < bitlen ?n" using n by (simp add: bitlen_pos)
  from bitlen_bounds [OF n] have b: "2 ^ (bitlen ?n - 1) \<le> ?n" "?n < 2 ^ bitlen ?n" by simp_all
  have nx: "real ?n \<le> x" using True by (simp add: of_nat_nat)
  have xn: "x < real ?n + 1" using True by (simp add: of_nat_nat)
  have e1: "exponent_of x = int (bitlen ?n - 1)" using bp e by simp
  have "(2::real) powi exponent_of x = 2 ^ (bitlen ?n - 1)"
    unfolding e1 by (rule power_int_of_nat)
  also have "\<dots> \<le> real ?n" using b(1) by (metis of_nat_le_iff of_nat_numeral of_nat_power)
  finally have lo: "2 powi exponent_of x \<le> x" using nx by simp
  have e2: "exponent_of x + 1 = int (bitlen ?n)" using e by simp
  have "real ?n + 1 \<le> 2 ^ bitlen ?n"
    using b(2) by (metis Suc_leI of_nat_Suc of_nat_le_iff of_nat_numeral of_nat_power add.commute)
  also have "\<dots> = (2::real) powi (exponent_of x + 1)"
    unfolding e2 by (simp only: power_int_of_nat)
  finally have "x < 2 powi (exponent_of x + 1)" using xn by simp
  with lo show ?thesis by simp
next
  case False
  with assms have x1: "x < 1" by simp
  let ?y = "1 / x"
  let ?m = "nat (\<lceil>?y\<rceil> - 1)"
  have y1: "1 < ?y" using assms x1 by simp
  then have c2: "2 \<le> \<lceil>?y\<rceil>" by linarith
  then have m: "0 < ?m" by simp
  have e: "exponent_of x = - int (bitlen ?m)" using False by (simp add: exponent_of_def)
  have bp: "0 < bitlen ?m" using m by (simp add: bitlen_pos)
  from bitlen_bounds [OF m] have b: "2 ^ (bitlen ?m - 1) \<le> ?m" "?m < 2 ^ bitlen ?m" by simp_all
  have "0 \<le> \<lceil>?y\<rceil> - 1" using c2 by linarith
  then have "real ?m = of_int (\<lceil>?y\<rceil> - 1)" by (rule of_nat_nat)
  then have mr: "real ?m = of_int \<lceil>?y\<rceil> - 1" by simp
  have "real ?m + 1 \<le> 2 ^ bitlen ?m"
    using b(2) by (metis Suc_leI of_nat_Suc of_nat_le_iff of_nat_numeral of_nat_power add.commute)
  then have "?y \<le> 2 ^ bitlen ?m" using mr by linarith
  then have "1 \<le> x * 2 ^ bitlen ?m" using assms by (simp add: field_simps)
  then have lo: "2 powi exponent_of x \<le> x"
    unfolding e by (simp add: power_int_minus field_simps)
  have "(2::real) ^ (bitlen ?m - 1) \<le> real ?m"
    using b(1) by (metis of_nat_le_iff of_nat_numeral of_nat_power)
  also have "\<dots> < ?y" using mr by linarith
  finally have "x * 2 ^ (bitlen ?m - 1) < 1" using assms by (simp add: field_simps)
  moreover have "exponent_of x + 1 = - int (bitlen ?m - 1)" using e bp by simp
  ultimately have "x < 2 powi (exponent_of x + 1)"
    by (simp add: power_int_minus field_simps)
  with lo show ?thesis by simp
qed

lemma exponent_of_mono:
  assumes "0 < x" "x \<le> y"
  shows "exponent_of x \<le> exponent_of y"
proof -
  from exponent_of_bounds [OF assms(1)] have "2 powi exponent_of x \<le> x" by simp
  also note assms(2)
  also from exponent_of_bounds [of y] assms have "y < 2 powi (exponent_of y + 1)" by simp
  finally have lt: "(2::real) powi exponent_of x < 2 powi (exponent_of y + 1)" .
  show ?thesis
  proof (rule ccontr)
    assume "\<not> exponent_of x \<le> exponent_of y"
    then have "exponent_of y + 1 \<le> exponent_of x" by simp
    then have "(2::real) powi (exponent_of y + 1) \<le> 2 powi exponent_of x"
      by (rule power_int_increasing) simp
    with lt show False by simp
  qed
qed

lemma round_half_even_of_int [simp]: "round_half_even (of_int n) = n"
  by (simp add: round_half_even_def)

lemma round_half_even_range:
  "\<lfloor>x\<rfloor> \<le> round_half_even x \<and> round_half_even x \<le> \<lfloor>x\<rfloor> + 1"
  by (simp add: round_half_even_def Let_def)

lemma round_half_even_mono:
  assumes "x \<le> y"
  shows "round_half_even x \<le> round_half_even y"
proof (cases "\<lfloor>x\<rfloor> = \<lfloor>y\<rfloor>")
  case True
  have "x - of_int \<lfloor>x\<rfloor> \<le> y - of_int \<lfloor>y\<rfloor>" using assms True by simp
  then show ?thesis unfolding round_half_even_def Let_def using True by auto
next
  case False
  with assms have "\<lfloor>x\<rfloor> < \<lfloor>y\<rfloor>" using floor_mono [OF assms] by linarith
  then have "round_half_even x \<le> \<lfloor>y\<rfloor>" using round_half_even_range [of x] by linarith
  also have "\<dots> \<le> round_half_even y" using round_half_even_range [of y] by simp
  finally show ?thesis .
qed


lemma ulp_of_pos [simp]: "0 < ulp_of x"
  by (simp add: ulp_of_def)

lemma ulp_of_nonneg [simp]: "0 \<le> ulp_of x"
  by (simp add: ulp_of_def)

lemma ulp_of_abs [simp]: "ulp_of \<bar>x\<bar> = ulp_of x" and ulp_of_minus [simp]: "ulp_of (- x) = ulp_of x"
  by (simp_all add: ulp_of_def)

lemma Double_0 [simp]: "Double 0 = 0"
  by (simp add: Double_def)

lemma Double_pos: "0 < x \<Longrightarrow> Double x = ulp_of x * of_int (round_half_even (x / ulp_of x))"
  by (simp add: Double_def)

lemma Double_minus: "Double (- x) = - Double x"
  by (simp add: Double_def sgn_minus)

lemma round_half_even_nonneg: "0 \<le> x \<Longrightarrow> 0 \<le> round_half_even x"
  using round_half_even_mono [of 0 x] round_half_even_of_int [of 0] by simp

lemma Double_nonneg: "0 \<le> x \<Longrightarrow> 0 \<le> Double x"
proof (cases "x = 0")
  case True
  then show ?thesis by simp
next
  case False
  assume "0 \<le> x"
  with False have x: "0 < x" by simp
  have "0 \<le> x / ulp_of x" using x by simp
  then have "0 \<le> round_half_even (x / ulp_of x)" by (rule round_half_even_nonneg)
  then show ?thesis unfolding Double_pos [OF x] by simp
qed

lemma pow2_shift: "(2::real) powi (a - b) * 2 powi b = 2 powi a"
  by (simp flip: power_int_add)

lemma Double_upper:
  assumes "0 < x"
  shows "Double x \<le> 2 powi (max (exponent_of x) (- 1022) + 1)"
proof -
  let ?E = "max (exponent_of x) (- 1022)"
  have u: "ulp_of x = 2 powi (?E - 52)" using assms by (simp add: ulp_of_def)
  have "x < 2 powi (exponent_of x + 1)" using exponent_of_bounds [OF assms] by simp
  also have "\<dots> \<le> 2 powi (?E + 1)" by (rule power_int_increasing) simp_all
  finally have "x / ulp_of x \<le> 2 powi (?E + 1) / ulp_of x" by (simp add: divide_right_mono)
  also have "\<dots> = 2 powi 53" unfolding u using pow2_shift [of "?E + 1" 53]
    by (simp add: field_simps)
  also have "\<dots> = of_int (2 ^ 53)" by simp
  finally have "round_half_even (x / ulp_of x) \<le> round_half_even (of_int (2 ^ 53))"
    by (rule round_half_even_mono)
  then have "round_half_even (x / ulp_of x) \<le> 2 ^ 53" by (simp only: round_half_even_of_int)
  then have "real_of_int (round_half_even (x / ulp_of x)) \<le> 2 powi 53"
    by (metis of_int_le_iff of_int_numeral of_int_power power_int_numeral)
  then have "Double x \<le> ulp_of x * 2 powi 53"
    unfolding Double_pos [OF assms] by (simp add: mult_left_mono)
  also have "\<dots> = 2 powi (?E + 1)" unfolding u using pow2_shift [of "?E + 1" 53] by simp
  finally show ?thesis .
qed

lemma Double_lower:
  assumes "0 < x" and "- 1022 \<le> exponent_of x"
  shows "2 powi exponent_of x \<le> Double x"
proof -
  let ?e = "exponent_of x"
  have u: "ulp_of x = 2 powi (?e - 52)" using assms by (simp add: ulp_of_def max_def)
  have "(2::real) powi 52 = 2 powi ?e / ulp_of x" unfolding u using pow2_shift [of ?e 52]
    by (simp add: field_simps)
  also have "\<dots> \<le> x / ulp_of x"
    using exponent_of_bounds [OF assms(1)] by (simp add: divide_right_mono)
  finally have "of_int (2 ^ 52) \<le> x / ulp_of x" by simp
  then have "round_half_even (of_int (2 ^ 52)) \<le> round_half_even (x / ulp_of x)"
    by (rule round_half_even_mono)
  then have "2 ^ 52 \<le> round_half_even (x / ulp_of x)" by (simp only: round_half_even_of_int)
  then have "2 powi 52 \<le> real_of_int (round_half_even (x / ulp_of x))"
    by (metis of_int_le_iff of_int_numeral of_int_power power_int_numeral)
  then have "ulp_of x * 2 powi 52 \<le> Double x"
    unfolding Double_pos [OF assms(1)] by (simp add: mult_left_mono)
  moreover have "ulp_of x * 2 powi 52 = 2 powi ?e" unfolding u using pow2_shift [of ?e 52] by simp
  ultimately show ?thesis by simp
qed

lemma Double_mono_pos:
  assumes "0 < x" "x \<le> y"
  shows "Double x \<le> Double y"
proof -
  let ?Ex = "max (exponent_of x) (- 1022)" and ?Ey = "max (exponent_of y) (- 1022)"
  have y: "0 < y" using assms by simp
  have ux: "ulp_of x = 2 powi (?Ex - 52)" using assms by (simp add: ulp_of_def)
  have uy: "ulp_of y = 2 powi (?Ey - 52)" using y by (simp add: ulp_of_def)
  have le: "?Ex \<le> ?Ey" using exponent_of_mono [OF assms] by simp
  show ?thesis
  proof (cases "?Ex = ?Ey")
    case True
    then have same: "ulp_of y = ulp_of x" using ux uy by simp
    have "x / ulp_of x \<le> y / ulp_of x" using assms(2) by (simp add: divide_right_mono)
    then have "round_half_even (x / ulp_of x) \<le> round_half_even (y / ulp_of x)"
      by (rule round_half_even_mono)
    then show ?thesis
      unfolding Double_pos [OF assms(1)] Double_pos [OF y] same by (simp add: mult_left_mono)
  next
    case False
    with le have lt: "?Ex + 1 \<le> ?Ey" by simp
    then have normal: "- 1022 \<le> exponent_of y" and Ey: "?Ey = exponent_of y" by simp_all
    have "Double x \<le> 2 powi (?Ex + 1)" using assms(1) by (rule Double_upper)
    also have "\<dots> \<le> 2 powi ?Ey" using lt by (rule power_int_increasing) simp
    also have "\<dots> \<le> Double y" unfolding Ey using y normal by (rule Double_lower)
    finally show ?thesis .
  qed
qed

lemma Double_mono:
  assumes "x \<le> y"
  shows "Double x \<le> Double y"
proof -
  consider "0 < x" | "x \<le> 0" "0 \<le> y" | "y < 0" by linarith
  then show ?thesis
  proof cases
    case 1
    then show ?thesis using assms by (rule Double_mono_pos)
  next
    case 2
    have "Double x = - Double (- x)" by (simp add: Double_minus)
    moreover have "0 \<le> Double (- x)" using 2(1) by (intro Double_nonneg) simp
    moreover have "0 \<le> Double y" using 2(2) by (rule Double_nonneg)
    ultimately show ?thesis by simp
  next
    case 3
    then have "0 < - y" "- y \<le> - x" using assms by simp_all
    then have "Double (- y) \<le> Double (- x)" by (rule Double_mono_pos)
    then show ?thesis by (simp add: Double_minus)
  qed
qed

lemma Double_of_int:
  assumes "0 \<le> k" "k < 2 ^ 53"
  shows "Double (of_int k) = of_int k"
proof (cases "k = 0")
  case True
  then show ?thesis by simp
next
  case False
  with assms have k: "1 \<le> k" by simp
  let ?x = "real_of_int k"
  let ?e = "exponent_of ?x"
  have x: "0 < ?x" using k by simp
  from exponent_of_bounds [OF x] have b: "2 powi ?e \<le> ?x" "?x < 2 powi (?e + 1)" by simp_all
  have e0: "0 \<le> ?e"
  proof (rule ccontr)
    assume "\<not> 0 \<le> ?e"
    then have "?e + 1 \<le> 0" by simp
    then have "(2::real) powi (?e + 1) \<le> 2 powi 0" by (rule power_int_increasing) simp
    with b(2) k show False by simp
  qed
  have e52: "?e \<le> 52"
  proof (rule ccontr)
    assume "\<not> ?e \<le> 52"
    then have "53 \<le> ?e" by simp
    then have "(2::real) powi 53 \<le> 2 powi ?e" by (rule power_int_increasing) simp
    with b(1) have "(2::real) ^ 53 \<le> ?x" by simp
    then have "(2::int) ^ 53 \<le> k" by (metis of_int_le_iff of_int_numeral of_int_power)
    with assms(2) show False by simp
  qed
  define d where "d = nat (52 - ?e)"
  have u: "ulp_of ?x = 2 powi (- int d)"
    using x e0 e52 by (simp add: ulp_of_def d_def max_def)
  have inv: "?x / ulp_of ?x = of_int (k * 2 ^ d)"
    unfolding u by (simp add: power_int_minus field_simps)
  have "Double ?x = ulp_of ?x * of_int (k * 2 ^ d)"
    unfolding Double_pos [OF x] inv by (simp only: round_half_even_of_int)
  also have "\<dots> = ?x" unfolding u by (simp add: power_int_minus field_simps)
  finally show ?thesis .
qed


lemmas double_eval = Double_def ulp_of_def exponent_of_def round_half_even_def Let_def bitlen.simps

lemma update_frame_fields:
  "startTimeRef (update_frame f st) = startTimeRef st"
  "rafScheduled (update_frame f st) = rafScheduled st"
  "stage (update_frame f st) = stage st"
  "currentColor (update_frame f st) = currentColor st"
  "(backgroundRef (update_frame f st) = None) = (backgroundRef st = None)"
  "backgroundRef st \<noteq> None \<Longrightarrow> currentFrameRef (update_frame f st) = f"
  by (simp_all add: update_frame_def Let_def set_style_def)

lemma update_frame_image:
  assumes "backgroundRef st = Some el"
    and "backgroundImage el = image_url (currentColor st) (currentFrameRef st)"
  shows "map_option backgroundImage (backgroundRef (update_frame f st))
           = Some (image_url (currentColor st) f)"
  using assms by (simp add: update_frame_def Let_def set_style_def)

lemma animate_mounted:
  "(backgroundRef (animate t st) = None) = (backgroundRef st = None)"
  by (simp add: animate_def Let_def set_style_def update_frame_fields)

lemma animate_color: "currentColor (animate t st) = currentColor st"
  by (simp add: animate_def Let_def set_style_def update_frame_fields)

lemma animate_start:
  "startTimeRef (animate t st) = Some (recorded_start t (startTimeRef st))"
  by (simp add: animate_def Let_def set_style_def update_frame_fields)

lemma animate_raf:
  "rafScheduled (animate t st)
     = (progress_of (Double (t - recorded_start t (startTimeRef st))) < 1)"
  by (simp add: animate_def Let_def set_style_def update_frame_fields)

lemma animate_frame:
  assumes "backgroundRef st \<noteq> None"
  shows "currentFrameRef (animate t st)
           = frameNumber_of (progress_of (Double (t - recorded_start t (startTimeRef st))))"
  using assms by (simp add: animate_def Let_def set_style_def update_frame_fields)

lemma animate_image:
  assumes "backgroundRef st = Some el"
    and "backgroundImage el = image_url (currentColor st) (currentFrameRef st)"
  shows "map_option backgroundImage (backgroundRef (animate t st))
           = Some (image_url (currentColor st)
               (frameNumber_of (progress_of (Double (t - recorded_start t (startTimeRef st))))))"
proof -
  let ?st1 = "st\<lparr>rafScheduled := False,
                  startTimeRef := Some (recorded_start t (startTimeRef st))\<rparr>"
  let ?f = "frameNumber_of (progress_of (Double (t - recorded_start t (startTimeRef st))))"
  have "map_option backgroundImage (backgroundRef (update_frame ?f ?st1))
          = Some (image_url (currentColor ?st1) ?f)"
    by (rule update_frame_image [of _ el]) (simp_all add: assms)
  then show ?thesis
    by (auto simp: animate_def Let_def set_style_def)
qed

lemma progress_of_range:
  assumes "0 \<le> elapsed"
  shows "0 \<le> progress_of elapsed \<and> progress_of elapsed \<le> 1"
proof -
  have "0 \<le> elapsed / ANIMATION_DURATION" using assms by (simp add: ANIMATION_DURATION_def)
  then have "0 \<le> Double (elapsed / ANIMATION_DURATION)" by (rule Double_nonneg)
  then show ?thesis by (simp add: progress_of_def)
qed

lemma progress_of_mono: "a \<le> b \<Longrightarrow> progress_of a \<le> progress_of b"
proof -
  assume "a \<le> b"
  then have "a / ANIMATION_DURATION \<le> b / ANIMATION_DURATION"
    by (simp add: ANIMATION_DURATION_def)
  then have "Double (a / ANIMATION_DURATION) \<le> Double (b / ANIMATION_DURATION)"
    by (rule Double_mono)
  then show ?thesis by (simp add: progress_of_def min_le_iff_disj)
qed

lemma Double_99: "Double 99 = 99"
  using Double_of_int [of 99] by simp

lemma Double_1: "Double 1 = 1"
  using Double_of_int [of 1] by simp

lemma frameNumber_of_unit:
  assumes "0 \<le> p" "p \<le> 1"
  shows "frameNumber_of p = \<lfloor>Double (p * 99)\<rfloor> + 1"
    and "1 \<le> frameNumber_of p" and "frameNumber_of p \<le> 100"
proof -
  let ?n = "\<lfloor>Double (p * 99)\<rfloor>"
  have "0 \<le> Double (p * 99)" using assms(1) by (intro Double_nonneg) simp
  then have n0: "0 \<le> ?n" by simp
  have "Double (p * 99) \<le> Double 99" using assms(2) by (intro Double_mono) simp
  then have "Double (p * 99) \<le> 99" by (simp only: Double_99)
  then have n99: "?n \<le> 99" by (simp add: floor_le_iff)
  have "Double (of_int (?n + 1)) = of_int (?n + 1)"
    by (rule Double_of_int) (use n0 n99 in simp_all)
  then have "frameNumber_of p = ?n + 1"
    by (simp add: frameNumber_of_def TOTAL_FRAMES_def)
  then show "frameNumber_of p = \<lfloor>Double (p * 99)\<rfloor> + 1"
    and "1 \<le> frameNumber_of p" and "frameNumber_of p \<le> 100"
    using n0 n99 by simp_all
qed

lemma frameNumber_of_mono:
  assumes "0 \<le> p" "p \<le> q" "q \<le> 1"
  shows "frameNumber_of p \<le> frameNumber_of q"
proof -
  have "Double (p * 99) \<le> Double (q * 99)" using assms(2) by (intro Double_mono) simp
  then have "\<lfloor>Double (p * 99)\<rfloor> \<le> \<lfloor>Double (q * 99)\<rfloor>" by (rule floor_mono)
  then show ?thesis
    using frameNumber_of_unit(1) [of p] frameNumber_of_unit(1) [of q] assms by simp
qed

lemma frame_from_start:
  "frameNumber_of (progress_of 0) = 1"
  by (simp add: progress_of_def ANIMATION_DURATION_def frameNumber_of_unit(1))

lemma frame_after_mono:
  assumes "0 \<le> a" "a \<le> b"
  shows "frameNumber_of (progress_of (Double a)) \<le> frameNumber_of (progress_of (Double b))"
proof -
  have a: "0 \<le> Double a" using assms(1) by (rule Double_nonneg)
  have ab: "Double a \<le> Double b" using assms(2) by (rule Double_mono)
  from a ab have b: "0 \<le> Double b" by simp
  show ?thesis
    using progress_of_range [OF a] progress_of_range [OF b] progress_of_mono [OF ab]
    by (intro frameNumber_of_mono) simp_all
qed

lemma frame_after_ge_1:
  "0 \<le> a \<Longrightarrow> 1 \<le> frameNumber_of (progress_of (Double a))"
  using progress_of_range [of "Double a"] by (simp add: Double_nonneg frameNumber_of_unit(2))

lemma animation_run_aux:
  "backgroundRef st = Some el
   \<Longrightarrow> backgroundImage el = image_url (currentColor st) (currentFrameRef st)
   \<Longrightarrow> sorted (lastT # ts)
   \<Longrightarrow> (case startTimeRef st of
          None \<Rightarrow> currentFrameRef st = 1
        | Some s \<Rightarrow> if s = 0 then currentFrameRef st = 1
                    else s \<le> lastT
                       \<and> currentFrameRef st = frameNumber_of (progress_of (Double (lastT - s))))
   \<Longrightarrow> sorted (currentFrameRef st # frames_shown ts st)
       \<and> images_shown ts st
           = map (\<lambda>f. Some (image_url (currentColor st) f)) (frames_shown ts st)"
proof (induction ts arbitrary: st lastT el)
  case Nil
  then show ?case by simp
next
  case (Cons t ts)
  show ?case
  proof (cases "rafScheduled st")
    case False
    then show ?thesis by simp
  next
    case True
    let ?st' = "animate t st"
    let ?start = "recorded_start t (startTimeRef st)"
    let ?f = "frameNumber_of (progress_of (Double (t - ?start)))"
    have le: "lastT \<le> t" and srt: "sorted (t # ts)" using Cons.prems(3) by simp_all
    have mounted: "backgroundRef st \<noteq> None" using Cons.prems(1) by simp
    have color: "currentColor ?st' = currentColor st" by (rule animate_color)
    have st: "startTimeRef ?st' = Some ?start" by (rule animate_start)
    have fr: "currentFrameRef ?st' = ?f" using mounted by (rule animate_frame)
    have "map_option backgroundImage (backgroundRef ?st') = Some (image_url (currentColor st) ?f)"
      using Cons.prems(1,2) by (rule animate_image)
    then obtain el' where el': "backgroundRef ?st' = Some el'"
      and img: "backgroundImage el' = image_url (currentColor st) ?f"
      by (cases "backgroundRef ?st'") auto
    have sync: "backgroundImage el' = image_url (currentColor ?st') (currentFrameRef ?st')"
      using img by (simp add: color fr)
    have start_le: "?start \<le> t"
      using Cons.prems(4) le by (auto simp: recorded_start_def split: option.splits if_splits)
    have inv: "case startTimeRef ?st' of
          None \<Rightarrow> currentFrameRef ?st' = 1
        | Some s \<Rightarrow> if s = 0 then currentFrameRef ?st' = 1
                    else s \<le> t
                       \<and> currentFrameRef ?st' = frameNumber_of (progress_of (Double (t - s)))"
    proof (cases "?start = 0")
      case True
      then have t0: "t = 0"
        by (auto simp: recorded_start_def split: option.splits if_splits)
      have "?f = 1" using True t0 by (simp add: frame_from_start)
      then have "currentFrameRef ?st' = 1" by (simp only: fr)
      then show ?thesis unfolding st using True by simp
    next
      case False
      with start_le show ?thesis by (simp add: st fr)
    qed
    have step: "currentFrameRef st \<le> currentFrameRef ?st'"
    proof (cases "\<exists>s. startTimeRef st = Some s \<and> s \<noteq> 0")
      case True
      then obtain s where s: "startTimeRef st = Some s" "s \<noteq> 0" by blast
      with Cons.prems(4) have old: "s \<le> lastT"
        "currentFrameRef st = frameNumber_of (progress_of (Double (lastT - s)))" by simp_all
      have "?start = s" using s by (simp add: recorded_start_def)
      moreover have "0 \<le> lastT - s" "lastT - s \<le> t - s" using old(1) le by simp_all
      ultimately show ?thesis unfolding fr old(2) by (simp add: frame_after_mono)
    next
      case False
      then have "currentFrameRef st = 1"
        using Cons.prems(4) by (auto split: option.splits if_splits)
      moreover have "1 \<le> ?f" using start_le by (intro frame_after_ge_1) simp
      ultimately show ?thesis by (simp add: fr)
    qed
    from Cons.IH [OF el' sync srt inv]
    have "sorted (currentFrameRef ?st' # frames_shown ts ?st')"
      and "images_shown ts ?st'
             = map (\<lambda>f. Some (image_url (currentColor st) f)) (frames_shown ts ?st')"
      by (simp_all add: color)
    moreover have "map_option backgroundImage (backgroundRef ?st')
                     = Some (image_url (currentColor st) (currentFrameRef ?st'))"
      using el' img by (simp add: fr)
    ultimately show ?thesis using step True by auto
  qed
qed

lemma sorted_tail: "sorted (x # xs) \<Longrightarrow> sorted xs"
  by simp

text \<open>
  Claim C4, as amended. The arithmetic is that of doubles. After a call of \<open>animate\<close> at a
  timestamp \<open>t\<close> not before the recorded start, with the element showing the frame that
  \<open>currentFrameRef\<close> holds, the frame number is
  \<open>floor (Double (min (Double (elapsed / 5000)) 1 * 99)) + 1\<close> for
  \<open>elapsed = Double (t - start)\<close>, and the element's background image is the image of that
  frame: frame 1 at elapsed 0, frame 100 from elapsed 5000 on. Over one run that starts
  from the rendered first frame, with callback timestamps in non-decreasing order, the
  frame numbers are in non-decreasing order and each callback leaves the image of its
  frame on the element.
\<close>

theorem animation_frame_number:
  "(backgroundRef st = Some el
      \<and> backgroundImage el = image_url (currentColor st) (currentFrameRef st)
      \<and> startTimeRef (animate t st) = Some start \<and> start \<le> t
      \<and> elapsed = Double (t - start)
      \<and> frame = \<lfloor>Double (min (Double (elapsed / 5000)) 1 * 99)\<rfloor> + 1
    \<longrightarrow> currentFrameRef (animate t st) = frame
        \<and> map_option backgroundImage (backgroundRef (animate t st))
             = Some (image_url (currentColor st) frame)
        \<and> (elapsed = 0 \<longrightarrow> frame = 1)
        \<and> (5000 \<le> elapsed \<longrightarrow> frame = 100))
   \<and> (backgroundRef st = Some el \<and> backgroundImage el = getBackgroundImage st
      \<and> stage st = Folding \<and> currentImage st = 1 \<and> imagesPreloaded st \<and> sorted ts
    \<longrightarrow> sorted (frames_shown ts (startAnimation st))
        \<and> images_shown ts (startAnimation st)
             = map (\<lambda>f. Some (image_url (currentColor st) f)) (frames_shown ts (startAnimation st)))"
proof (intro conjI impI)
  assume a: "backgroundRef st = Some el
      \<and> backgroundImage el = image_url (currentColor st) (currentFrameRef st)
      \<and> startTimeRef (animate t st) = Some start \<and> start \<le> t
      \<and> elapsed = Double (t - start)
      \<and> frame = \<lfloor>Double (min (Double (elapsed / 5000)) 1 * 99)\<rfloor> + 1"
  then have start: "start = recorded_start t (startTimeRef st)" by (simp add: animate_start)
  have e0: "0 \<le> elapsed" using a by (simp add: Double_nonneg)
  from progress_of_range [OF e0]
  have "frameNumber_of (progress_of elapsed) = \<lfloor>Double (progress_of elapsed * 99)\<rfloor> + 1"
    by (intro frameNumber_of_unit(1)) simp_all
  then have f: "frameNumber_of (progress_of elapsed) = frame"
    using a by (simp add: progress_of_def ANIMATION_DURATION_def)
  have mounted: "backgroundRef st \<noteq> None" using a by simp
  show "currentFrameRef (animate t st) = frame"
    using animate_frame [OF mounted, of t] a f by (simp add: start)
  show "map_option backgroundImage (backgroundRef (animate t st))
             = Some (image_url (currentColor st) frame)"
    using animate_image [of st el t] a f by (simp add: start)
  show "frame = 1" if "elapsed = 0"
    using that a by simp
  show "frame = 100" if "5000 \<le> elapsed"
  proof -
    have "1 \<le> elapsed / 5000" using that by simp
    then have "Double 1 \<le> Double (elapsed / 5000)" by (rule Double_mono)
    then have "min (Double (elapsed / 5000)) 1 = 1" by (simp add: Double_1)
    then show ?thesis using a by (simp add: Double_99)
  qed
next
  assume a: "backgroundRef st = Some el \<and> backgroundImage el = getBackgroundImage st
      \<and> stage st = Folding \<and> currentImage st = 1 \<and> imagesPreloaded st \<and> sorted ts"
  let ?s0 = "startAnimation st"
  have s0: "?s0 = st\<lparr>startTimeRef := None, currentFrameRef := 1, rafScheduled := True\<rparr>"
    using a by (simp add: startAnimation_def)
  have img: "backgroundImage el = image_url (currentColor st) 1"
    using a by (simp add: getBackgroundImage_def)
  have run: "sorted (currentFrameRef ?s0 # frames_shown ts ?s0)
       \<and> images_shown ts ?s0
           = map (\<lambda>f. Some (image_url (currentColor ?s0) f)) (frames_shown ts ?s0)"
  proof (rule animation_run_aux [where lastT = "case ts of [] \<Rightarrow> 0 | t0 # _ \<Rightarrow> t0" and el = el])
    show "backgroundRef ?s0 = Some el" using a by (simp add: s0)
    show "backgroundImage el = image_url (currentColor ?s0) (currentFrameRef ?s0)"
      using img by (simp add: s0)
    show "sorted ((case ts of [] \<Rightarrow> 0 | t0 # _ \<Rightarrow> t0) # ts)"
      using a by (cases ts) simp_all
    show "case startTimeRef ?s0 of
          None \<Rightarrow> currentFrameRef ?s0 = 1
        | Some s \<Rightarrow> if s = 0 then currentFrameRef ?s0 = 1
                    else s \<le> (case ts of [] \<Rightarrow> 0 | t0 # _ \<Rightarrow> t0)
                       \<and> currentFrameRef ?s0
                           = frameNumber_of (progress_of
                               (Double ((case ts of [] \<Rightarrow> 0 | t0 # _ \<Rightarrow> t0) - s)))"
      by (simp add: s0)
  qed
  from run show "sorted (frames_shown ts ?s0)" using sorted_tail by blast
  from run show "images_shown ts ?s0
             = map (\<lambda>f. Some (image_url (currentColor st) f)) (frames_shown ts ?s0)"
    by (simp add: s0)
qed


lemma first_render_blue:
  "currentColor (first_render 0 Map.empty) = Some ''blue''"
  "backgroundRef (first_render 0 Map.empty)
     = Some \<lparr>backgroundImage = image_url (Some ''blue'') 1, willChange = []\<rparr>"
  by (simp_all add: first_render_def getBackgroundImage_def getNextColor_def colorPool_def
      availableColors_def COLORS_def random_index_def js_index_def getItem_def setItem_def
      ToString_def Let_def)

theorem animation_frame_number_witness:
  "frames_shown [1000, 5864062014805333 / 2199023255552, 3500, 5999, 6000, 6016]
     (startAnimation (handleSubmit ((first_render 0 Map.empty)
        \<lparr>formData := \<lparr>name = ''Ada'', email = ''ada@example.com'', message = ''Great demo''\<rparr>,
         imagesPreloaded := True\<rparr>)))
     = [1, 34, 50, 99, 100]
   \<and> images_shown [1000, 5864062014805333 / 2199023255552, 3500, 5999, 6000, 6016]
     (startAnimation (handleSubmit ((first_render 0 Map.empty)
        \<lparr>formData := \<lparr>name = ''Ada'', email = ''ada@example.com'', message = ''Great demo''\<rparr>,
         imagesPreloaded := True\<rparr>)))
     = map (\<lambda>f. Some (image_url (Some ''blue'') f)) [1, 34, 50, 99, 100]
   \<and> currentFrameRef (animate 6000 ((first_render 0 Map.empty)
        \<lparr>stage := Folding, currentImage := 1, imagesPreloaded := True,
         startTimeRef := Some 1000\<rparr>)) = 100
   \<and> map_option backgroundImage (backgroundRef (animate 6000 ((first_render 0 Map.empty)
        \<lparr>stage := Folding, currentImage := 1, imagesPreloaded := True,
         startTimeRef := Some 1000\<rparr>))) = Some (image_url (Some ''blue'') 100)"
proof -
  let ?ts = "[1000, 5864062014805333 / 2199023255552, 3500, 5999, 6000, 6016] :: real list"
  let ?st = "handleSubmit ((first_render 0 Map.empty)
        \<lparr>formData := \<lparr>name = ''Ada'', email = ''ada@example.com'', message = ''Great demo''\<rparr>,
         imagesPreloaded := True\<rparr>)"
  let ?mid = "(first_render 0 Map.empty)
        \<lparr>stage := Folding, currentImage := 1, imagesPreloaded := True,
         startTimeRef := Some 1000\<rparr>"
  let ?el = "\<lparr>backgroundImage = image_url (Some ''blue'') 1, willChange = []\<rparr>"
  have st: "?st = (first_render 0 Map.empty)
        \<lparr>formData := \<lparr>name = ''Ada'', email = ''ada@example.com'', message = ''Great demo''\<rparr>,
         imagesPreloaded := True, stage := Folding, currentImage := 1\<rparr>"
    by (simp add: handleSubmit_def)
  have hyp: "backgroundRef ?st = Some ?el \<and> backgroundImage ?el = getBackgroundImage ?st
      \<and> stage ?st = Folding \<and> currentImage ?st = 1 \<and> imagesPreloaded ?st \<and> sorted ?ts"
    unfolding st by (simp add: first_render_blue getBackgroundImage_def)
  have frames: "frames_shown ?ts (startAnimation ?st) = [1, 34, 50, 99, 100]"
    unfolding st
    by (simp add: startAnimation_def first_render_blue animate_raf animate_frame animate_start
        animate_mounted recorded_start_def progress_of_def frameNumber_of_def
        ANIMATION_DURATION_def TOTAL_FRAMES_def double_eval)
  have color: "currentColor ?st = Some ''blue''"
    unfolding st by (simp add: first_render_blue)
  have mid: "backgroundRef ?mid = Some ?el
      \<and> backgroundImage ?el = image_url (currentColor ?mid) (currentFrameRef ?mid)
      \<and> startTimeRef (animate 6000 ?mid) = Some 1000 \<and> (1000::real) \<le> 6000
      \<and> (5000::real) = Double (6000 - 1000)
      \<and> (100::int) = \<lfloor>Double (min (Double (5000 / 5000)) 1 * 99)\<rfloor> + 1"
    by (simp add: first_render_blue first_render_fields animate_start recorded_start_def
        double_eval)
  from animation_frame_number [of ?st ?el 0 0 0 0 ?ts] hyp frames color
  have run: "images_shown ?ts (startAnimation ?st)
      = map (\<lambda>f. Some (image_url (Some ''blue'') f)) [1, 34, 50, 99, 100]"
    by simp
  from animation_frame_number [of ?mid ?el 6000 1000 5000 100 "[]"] mid
  have step: "currentFrameRef (animate 6000 ?mid) = 100
      \<and> map_option backgroundImage (backgroundRef (animate 6000 ?mid))
           = Some (image_url (currentColor ?mid) 100)"
    by blast
  then have step': "currentFrameRef (animate 6000 ?mid) = 100
      \<and> map_option backgroundImage (backgroundRef (animate 6000 ?mid))
           = Some (image_url (Some ''blue'') 100)"
    by (simp add: first_render_blue)
  from frames run step' show ?thesis by blast
qed

text \<open>
  The same formula taken in exact arithmetic is not what the code shows: with the start
  recorded at 1000 and the next callback at 2666.6666666666665 (the double written out
  below), the elapsed time is the exact difference, the exact formula gives 33 and the code
  shows frame 34.
\<close>

theorem animation_frame_exact_counterexample:
  "frames_shown [1000, 5864062014805333 / 2199023255552]
     (startAnimation ((first_render 0 Map.empty)
        \<lparr>stage := Folding, currentImage := 1, imagesPreloaded := True\<rparr>))
     = [1, 34]
   \<and> Double (5864062014805333 / 2199023255552 - 1000) = 5864062014805333 / 2199023255552 - 1000
   \<and> \<lfloor>min ((5864062014805333 / 2199023255552 - 1000) / 5000) 1 * (99::real)\<rfloor> + 1 = 33"
  by (simp add: startAnimation_def first_render_blue animate_raf animate_frame animate_start
      animate_mounted recorded_start_def progress_of_def frameNumber_of_def
      ANIMATION_DURATION_def TOTAL_FRAMES_def double_eval)

subsection \<open>Image preloading\<close>

lemma promise_event_length: "length (promise_event ev ps) = length ps"
  by (cases ev) (simp_all add: on_promise_def)

lemma promise_event_mono:
  "j < length ps \<Longrightarrow> promise_rank (ps ! j) \<le> promise_rank (promise_event ev ps ! j)"
  by (cases ev; cases "ps ! j") (auto simp: on_promise_def nth_list_update)

lemma promise_event_resolves:
  assumes "1 \<le> i" "i \<le> length ps"
  shows "promise_event (ImgError i) ps ! (i - 1) = Resolved"
    and "promise_event (ImgLoad i False) ps ! (i - 1) = Resolved"
    and "1 \<le> promise_rank (promise_event (ImgLoad i True) ps ! (i - 1))"
    and "1 \<le> promise_rank (ps ! (i - 1)) \<Longrightarrow> promise_event (DecodeFulfilled i) ps ! (i - 1) = Resolved"
    and "1 \<le> promise_rank (ps ! (i - 1)) \<Longrightarrow> promise_event (DecodeRejected i) ps ! (i - 1) = Resolved"
  using assms by (cases "ps ! (i - 1)"; simp add: on_promise_def)+

lemma fold_promise_length: "length (fold promise_event evs ps) = length ps"
  by (induction evs arbitrary: ps) (simp_all add: promise_event_length)

lemma fold_promise_mono:
  "j < length ps \<Longrightarrow> promise_rank (ps ! j) \<le> promise_rank (fold promise_event evs ps ! j)"
proof (induction evs arbitrary: ps)
  case Nil
  then show ?case by simp
next
  case (Cons ev evs)
  have "promise_rank (ps ! j) \<le> promise_rank (promise_event ev ps ! j)"
    using Cons.prems by (rule promise_event_mono)
  also have "\<dots> \<le> promise_rank (fold promise_event evs (promise_event ev ps) ! j)"
    using Cons.prems by (intro Cons.IH) (simp add: promise_event_length)
  finally show ?case by simp
qed

lemma rank_Resolved: "(2 \<le> promise_rank p) = (p = Resolved)"
  by (cases p) simp_all

lemma fold_promise_keeps_resolved:
  assumes "j < length ps" and "ps ! j = Resolved"
  shows "fold promise_event evs ps ! j = Resolved"
proof -
  have "2 \<le> promise_rank (fold promise_event evs ps ! j)"
    using fold_promise_mono [OF assms(1), of evs] assms(2) by simp
  then show ?thesis by (simp only: rank_Resolved)
qed

lemma fold_promise_keeps_started:
  "j < length ps \<Longrightarrow> 1 \<le> promise_rank (ps ! j)
     \<Longrightarrow> 1 \<le> promise_rank (fold promise_event evs ps ! j)"
  using fold_promise_mono [of j ps evs] by simp


lemma occur_in_order_ConsD:
  "occur_in_order (x # xs) ys \<Longrightarrow> \<exists>as bs. ys = as @ x # bs \<and> occur_in_order xs bs"
proof (induction ys)
  case Nil
  then show ?case by simp
next
  case (Cons y ys)
  show ?case
  proof (cases "x = y")
    case True
    with Cons.prems have "y # ys = [] @ x # ys \<and> occur_in_order xs ys" by simp
    then show ?thesis by blast
  next
    case False
    with Cons.prems have "occur_in_order (x # xs) ys" by simp
    from Cons.IH [OF this] obtain as bs where "ys = as @ x # bs" "occur_in_order xs bs"
      by blast
    then have "y # ys = (y # as) @ x # bs \<and> occur_in_order xs bs" by simp
    then show ?thesis by blast
  qed
qed

lemma outcome_resolves:
  assumes i: "1 \<le> i" "i \<le> length ps"
    and occ: "occur_in_order (outcome_events i out) evs"
  shows "fold promise_event evs ps ! (i - 1) = Resolved"
proof -
  have j: "i - 1 < length ps" using i by simp
  have len: "\<And>es. i \<le> length (fold promise_event es ps)" using i(2) by (simp add: fold_promise_length)
  have len': "\<And>es. i - 1 < length (fold promise_event es ps)" using j by (simp add: fold_promise_length)
  obtain e1 rest where ev: "outcome_events i out = e1 # rest" by (cases out) simp_all
  from occur_in_order_ConsD [OF occ [unfolded ev]] obtain as bs where
    split1: "evs = as @ e1 # bs" and occ2: "occur_in_order rest bs" by blast
  let ?p1 = "promise_event e1 (fold promise_event as ps)"
  have lp1: "i \<le> length ?p1" "i - 1 < length ?p1"
    using len len' by (simp_all add: promise_event_length)
  have run1: "fold promise_event evs ps = fold promise_event bs ?p1"
    by (simp add: split1)
  show ?thesis
  proof (cases "rest = []")
    case True
    then have "e1 = ImgError i \<or> e1 = ImgLoad i False" using ev by (cases out) simp_all
    then have "?p1 ! (i - 1) = Resolved"
      using promise_event_resolves(1,2) [OF i(1) len] by auto
    then show ?thesis unfolding run1 using lp1(2) by (rule fold_promise_keeps_resolved [rotated])
  next
    case False
    have e1: "e1 = ImgLoad i True" using False ev by (cases out) simp_all
    have r: "rest = [DecodeFulfilled i] \<or> rest = [DecodeRejected i]"
      using False ev by (cases out) simp_all
    from r obtain e2 where rest: "rest = [e2]" and e2: "e2 = DecodeFulfilled i \<or> e2 = DecodeRejected i"
      by blast
    from occur_in_order_ConsD [OF occ2 [unfolded rest]] obtain cs ds where
      split2: "bs = cs @ e2 # ds" by blast
    let ?p2 = "fold promise_event cs ?p1"
    let ?p3 = "promise_event e2 ?p2"
    have "1 \<le> promise_rank (?p1 ! (i - 1))"
      unfolding e1 using promise_event_resolves(3) [OF i(1) len] by simp
    then have started: "1 \<le> promise_rank (?p2 ! (i - 1))"
      using lp1(2) by (rule fold_promise_keeps_started [rotated])
    have lp2: "i \<le> length ?p2" "i - 1 < length ?p2"
      using lp1 by (simp_all add: fold_promise_length)
    have "?p3 ! (i - 1) = Resolved"
      using e2 promise_event_resolves(4,5) [OF i(1) lp2(1) started] by auto
    moreover have "i - 1 < length ?p3" using lp2(2) by (simp add: promise_event_length)
    ultimately have "fold promise_event ds ?p3 ! (i - 1) = Resolved"
      by (rule fold_promise_keeps_resolved [rotated])
    then show ?thesis unfolding run1 by (simp add: split2)
  qed
qed

lemma all_resolved_nth: "all_resolved ps = (\<forall>j < length ps. ps ! j = Resolved)"
  by (simp add: all_resolved_def list_all_length)

lemma outcomes_resolve_all:
  assumes "\<forall>i \<in> {1..length ps}. occur_in_order (outcome_events i (oc i)) evs"
  shows "all_resolved (fold promise_event evs ps)"
  unfolding all_resolved_nth fold_promise_length
proof (intro allI impI)
  fix j assume j: "j < length ps"
  then have "occur_in_order (outcome_events (Suc j) (oc (Suc j))) evs" using assms by simp
  from outcome_resolves [OF _ _ this, of ps] j show "fold promise_event evs ps ! j = Resolved"
    by simp
qed

lemma all_resolved_stable:
  assumes "all_resolved ps"
  shows "all_resolved (fold promise_event evs ps)"
  using assms unfolding all_resolved_nth fold_promise_length
  by (auto intro: fold_promise_keeps_resolved)


lemma fire_grace_cases:
  "(\<not> grace_pending st \<and> fire_grace st = st)
   \<or> (\<exists>t. t \<in> set (timers st) \<and> snd t = PreloadGrace
          \<and> fire_grace st = st\<lparr>imagesPreloaded := True, timers := remove1 t (timers st)\<rparr>)"
proof (cases "find (\<lambda>t. snd t = PreloadGrace) (timers st)")
  case None
  then have "\<not> grace_pending st"
    by (auto simp: grace_pending_def list_ex_iff find_None_iff)
  with None show ?thesis by (simp add: fire_grace_def)
next
  case (Some t)
  then have "t \<in> set (timers st) \<and> snd t = PreloadGrace"
    by (auto simp: find_Some_iff)
  moreover have "fire_grace st = st\<lparr>imagesPreloaded := True, timers := remove1 t (timers st)\<rparr>"
    using Some by (simp add: fire_grace_def)
  ultimately show ?thesis by blast
qed

lemma grace_pending_set: "grace_pending st = (\<exists>t \<in> set (timers st). snd t = PreloadGrace)"
  by (simp add: grace_pending_def list_ex_iff)

lemma fire_grace_fields:
  "imagePromises (fire_grace st) = imagePromises st"
  "imagesPreloaded (fire_grace st) = (imagesPreloaded st \<or> grace_pending st)"
  "set (timers (fire_grace st)) \<subseteq> set (timers st)"
proof -
  from fire_grace_cases [of st]
  consider (idle) "\<not> grace_pending st" "fire_grace st = st"
    | (fired) t where "t \<in> set (timers st)" "snd t = PreloadGrace"
        "fire_grace st = st\<lparr>imagesPreloaded := True, timers := remove1 t (timers st)\<rparr>"
    by blast
  then have "imagePromises (fire_grace st) = imagePromises st
      \<and> imagesPreloaded (fire_grace st) = (imagesPreloaded st \<or> grace_pending st)
      \<and> set (timers (fire_grace st)) \<subseteq> set (timers st)"
  proof cases
    case idle
    then show ?thesis by simp
  next
    case fired
    from fired(1,2) have "grace_pending st" unfolding grace_pending_set by blast
    with fired(3) set_remove1_subset [of t "timers st"] show ?thesis by simp
  qed
  then show "imagePromises (fire_grace st) = imagePromises st"
    "imagesPreloaded (fire_grace st) = (imagesPreloaded st \<or> grace_pending st)"
    "set (timers (fire_grace st)) \<subseteq> set (timers st)"
    by simp_all
qed

lemma preload_step_promises:
  "imagePromises (preload_step ev st) = promise_event ev (imagePromises st)"
  by (simp add: preload_step_def Let_def fire_grace_fields)

lemma preload_run_promises:
  "imagePromises (preload_run evs st) = fold promise_event evs (imagePromises st)"
  by (induction evs arbitrary: st) (simp_all add: preload_step_promises)

lemma preload_run_snoc: "preload_run (evs @ [ev]) st = preload_step ev (preload_run evs st)"
  by (induction evs arbitrary: st) simp_all

lemma preload_run_append: "preload_run (xs @ ys) st = preload_run ys (preload_run xs st)"
  by (induction xs arbitrary: st) simp_all

lemma preload_step_ready:
  "imagesPreloaded (preload_step ev st)
     = (imagesPreloaded st \<or> ev = GraceTimeout \<and> grace_pending st)"
  by (simp add: preload_step_def Let_def fire_grace_fields)

lemma preload_step_pending:
  "grace_pending (preload_step ev st)
     \<Longrightarrow> grace_pending st
         \<or> (ev \<noteq> GraceTimeout \<and> all_resolved (promise_event ev (imagePromises st)))"
proof (cases "ev = GraceTimeout")
  case True
  assume "grace_pending (preload_step ev st)"
  with True show ?thesis
    using fire_grace_fields(3) [of st]
    by (auto simp: preload_step_def grace_pending_set)
next
  case False
  assume "grace_pending (preload_step ev st)"
  with False show ?thesis
    by (auto simp: preload_step_def Let_def grace_pending_set split: if_splits)
qed

lemma preload_step_schedules:
  assumes "ev \<noteq> GraceTimeout"
  shows "grace_pending st \<Longrightarrow> grace_pending (preload_step ev st)"
    and "all_resolved (promise_event ev (imagePromises st)) \<Longrightarrow> \<not> all_resolved (imagePromises st)
           \<Longrightarrow> grace_pending (preload_step ev st)"
  using assms by (auto simp: preload_step_def Let_def grace_pending_set)

lemma promise_event_stable: "all_resolved ps \<Longrightarrow> all_resolved (promise_event ev ps)"
  using all_resolved_stable [of ps "[ev]"] by simp

text \<open>Ready or about to be ready only when every promise is resolved.\<close>

lemma preload_safe_step:
  assumes "imagesPreloaded st \<or> grace_pending st \<longrightarrow> all_resolved (imagePromises st)"
  shows "imagesPreloaded (preload_step ev st) \<or> grace_pending (preload_step ev st)
           \<longrightarrow> all_resolved (imagePromises (preload_step ev st))"
  using assms preload_step_pending [of ev st] promise_event_stable [of "imagePromises st" ev]
  by (auto simp: preload_step_ready preload_step_promises)

lemma preload_safe:
  assumes "imagesPreloaded st \<or> grace_pending st \<longrightarrow> all_resolved (imagePromises st)"
  shows "imagesPreloaded (preload_run evs st) \<or> grace_pending (preload_run evs st)
           \<longrightarrow> all_resolved (imagePromises (preload_run evs st))"
  using assms
proof (induction evs arbitrary: st)
  case Nil
  then show ?case by simp
next
  case (Cons ev evs)
  from preload_safe_step [OF Cons.prems] show ?case
    by (simp add: Cons.IH)
qed

text \<open>Once every promise is resolved, the state is ready or the grace timer is pending.\<close>

lemma preload_live_step:
  assumes "all_resolved (imagePromises st) \<longrightarrow> imagesPreloaded st \<or> grace_pending st"
  shows "all_resolved (imagePromises (preload_step ev st))
           \<longrightarrow> imagesPreloaded (preload_step ev st) \<or> grace_pending (preload_step ev st)"
proof (cases "ev = GraceTimeout")
  case True
  then have "imagePromises (preload_step ev st) = imagePromises st"
    by (simp add: preload_step_promises)
  with True assms show ?thesis by (auto simp: preload_step_ready)
next
  case False
  from preload_step_schedules [OF False, of st] assms show ?thesis
    by (auto simp: preload_step_ready preload_step_promises)
qed

lemma preload_live:
  assumes "all_resolved (imagePromises st) \<longrightarrow> imagesPreloaded st \<or> grace_pending st"
  shows "all_resolved (imagePromises (preload_run evs st))
           \<longrightarrow> imagesPreloaded (preload_run evs st) \<or> grace_pending (preload_run evs st)"
  using assms
proof (induction evs arbitrary: st)
  case Nil
  then show ?case by simp
next
  case (Cons ev evs)
  from preload_live_step [OF Cons.prems] show ?case
    by (simp add: Cons.IH)
qed

lemma preload_ready_stable:
  "imagesPreloaded st \<Longrightarrow> imagesPreloaded (preload_run evs st)"
  by (induction evs arbitrary: st) (simp_all add: preload_step_ready)


lemma preload_step_timers:
  "set (timers (preload_step ev st)) \<subseteq> insert (100, PreloadGrace) (set (timers st))"
  using fire_grace_fields(3) [of st] by (auto simp: preload_step_def Let_def)

lemma preload_run_delay:
  "\<forall>t \<in> set (timers st). snd t = PreloadGrace \<longrightarrow> fst t = 100
   \<Longrightarrow> \<forall>t \<in> set (timers (preload_run evs st)). snd t = PreloadGrace \<longrightarrow> fst t = 100"
proof (induction evs arbitrary: st)
  case Nil
  then show ?case by simp
next
  case (Cons ev evs)
  have "\<forall>t \<in> set (timers (preload_step ev st)). snd t = PreloadGrace \<longrightarrow> fst t = 100"
    using Cons.prems preload_step_timers [of ev st] by auto
  from Cons.IH [OF this] show ?case by simp
qed

lemma preloadImages_fields:
  "imagesPreloaded (preloadImages st) = False"
  "grace_pending (preloadImages st) = grace_pending st"
  "timers (preloadImages st) = timers st"
  "length (imagePromises (preloadImages st)) = 100"
  "all_resolved (imagePromises (preloadImages st)) = False"
proof -
  have "\<exists>p::nat. Suc 0 \<le> p \<and> p < 101" by (rule exI [of _ 1]) simp
  then show "all_resolved (imagePromises (preloadImages st)) = False"
    by (simp add: preloadImages_def all_resolved_def list_all_iff)
qed (simp_all add: preloadImages_def grace_pending_def)

lemma preload_ready_after_grace:
  assumes "\<not> grace_pending st"
    and "all_resolved (imagePromises (preload_run evs (preloadImages st)))"
  shows "imagesPreloaded (preload_run (evs @ [GraceTimeout]) (preloadImages st))"
proof -
  have "all_resolved (imagePromises (preloadImages st))
          \<longrightarrow> imagesPreloaded (preloadImages st) \<or> grace_pending (preloadImages st)"
    by (simp add: preloadImages_fields)
  from preload_live [OF this, of evs] assms(2)
  have "imagesPreloaded (preload_run evs (preloadImages st))
          \<or> grace_pending (preload_run evs (preloadImages st))" by simp
  then show ?thesis by (simp add: preload_run_snoc preload_step_ready)
qed

lemma preload_ready_only_after_grace:
  assumes "\<not> grace_pending st"
  shows "imagesPreloaded (preload_run evs (preloadImages st))
     \<Longrightarrow> \<exists>pre post. evs = pre @ GraceTimeout # post
            \<and> all_resolved (imagePromises (preload_run pre (preloadImages st)))"
proof (induction evs rule: rev_induct)
  case Nil
  then show ?case by (simp add: preloadImages_fields)
next
  case (snoc ev evs)
  let ?s = "preload_run evs (preloadImages st)"
  from snoc.prems have "imagesPreloaded ?s \<or> ev = GraceTimeout \<and> grace_pending ?s"
    by (simp add: preload_run_snoc preload_step_ready)
  then show ?case
  proof
    assume "imagesPreloaded ?s"
    from snoc.IH [OF this] obtain pre post where
      "evs = pre @ GraceTimeout # post"
      "all_resolved (imagePromises (preload_run pre (preloadImages st)))" by blast
    then have "evs @ [ev] = pre @ GraceTimeout # (post @ [ev])
        \<and> all_resolved (imagePromises (preload_run pre (preloadImages st)))" by simp
    then show ?thesis by blast
  next
    assume g: "ev = GraceTimeout \<and> grace_pending ?s"
    have "imagesPreloaded (preloadImages st) \<or> grace_pending (preloadImages st)
            \<longrightarrow> all_resolved (imagePromises (preloadImages st))"
      using assms by (simp add: preloadImages_fields)
    from preload_safe [OF this, of evs] g have "all_resolved (imagePromises ?s)" by simp
    with g have "evs @ [ev] = evs @ GraceTimeout # [] \<and> all_resolved (imagePromises ?s)"
      by simp
    then show ?thesis by blast
  qed
qed

lemma occur_in_order_Cons_aux:
  "(occur_in_order (x # xs) ys \<longrightarrow> occur_in_order xs ys)
   \<and> (occur_in_order xs ys \<longrightarrow> occur_in_order xs (y # ys))"
proof (induction ys arbitrary: x xs y)
  case Nil
  show ?case by (cases xs) simp_all
next
  case (Cons z zs)
  have drop: "occur_in_order xs (z # zs)" if "occur_in_order (x # xs) (z # zs)" for x xs
  proof (cases "x = z")
    case True
    with that have "occur_in_order xs zs" by simp
    then show ?thesis using Cons.IH by blast
  next
    case False
    with that have "occur_in_order (x # xs) zs" by simp
    then have "occur_in_order xs zs" using Cons.IH by blast
    then show ?thesis using Cons.IH by blast
  qed
  have "occur_in_order xs (y # z # zs)" if "occur_in_order xs (z # zs)"
  proof (cases xs)
    case Nil
    then show ?thesis by simp
  next
    case (Cons a as)
    show ?thesis
    proof (cases "a = y")
      case True
      from that have "occur_in_order as (z # zs)" unfolding Cons by (rule drop)
      with True show ?thesis by (simp add: Cons)
    next
      case False
      with that show ?thesis by (simp add: Cons)
    qed
  qed
  with drop show ?case by blast
qed

lemma occur_in_order_Cons: "occur_in_order xs ys \<Longrightarrow> occur_in_order xs (y # ys)"
  by (rule occur_in_order_Cons_aux [THEN conjunct2, THEN mp])

lemma occur_in_order_single: "occur_in_order [x] ys = (x \<in> set ys)"
  by (induction ys) auto

lemma settles_Cons: "settles i evs \<Longrightarrow> settles i (ev # evs)"
  unfolding settles_def list_ex_iff by (blast intro: occur_in_order_Cons)

lemma settles_cases:
  "settles i evs =
     (ImgError i \<in> set evs \<or> ImgLoad i False \<in> set evs
      \<or> occur_in_order [ImgLoad i True, DecodeFulfilled i] evs
      \<or> occur_in_order [ImgLoad i True, DecodeRejected i] evs)"
proof -
  have "settles i evs =
     (occur_in_order [ImgLoad i True, DecodeFulfilled i] evs
      \<or> occur_in_order [ImgLoad i False] evs
      \<or> occur_in_order [ImgError i] evs
      \<or> occur_in_order [ImgLoad i True, DecodeRejected i] evs)"
    by (simp add: settles_def)
  then show ?thesis unfolding occur_in_order_single by blast
qed

lemma on_promise_nth:
  assumes "Suc 0 \<le> i" "i \<le> length ps"
  shows "on_promise j f ps ! (i - Suc 0)
           = (if j = i then f (ps ! (i - Suc 0)) else ps ! (i - Suc 0))"
proof (cases "j = i")
  case True
  with assms show ?thesis by (simp add: on_promise_def)
next
  case False
  with assms(1) have "Suc 0 \<le> j \<Longrightarrow> j - Suc 0 \<noteq> i - Suc 0" by linarith
  with False show ?thesis by (simp add: on_promise_def)
qed

lemma promise_event_from_pending:
  assumes "1 \<le> i" "i \<le> length ps" "ps ! (i - 1) = Pending"
  shows "promise_event ev ps ! (i - 1) = Pending
       \<or> (promise_event ev ps ! (i - 1) = Decoding \<and> ev = ImgLoad i True)
       \<or> (promise_event ev ps ! (i - 1) = Resolved \<and> (ev = ImgError i \<or> ev = ImgLoad i False))"
  using assms by (cases ev) (simp_all add: on_promise_nth)

lemma promise_event_from_decoding:
  assumes "1 \<le> i" "i \<le> length ps" "ps ! (i - 1) = Decoding"
  shows "promise_event ev ps ! (i - 1) = Decoding
       \<or> (promise_event ev ps ! (i - 1) = Resolved
           \<and> (ev = ImgError i \<or> ev = ImgLoad i False
               \<or> ev = DecodeFulfilled i \<or> ev = DecodeRejected i))"
  using assms by (cases ev) (simp_all add: on_promise_nth)

lemma resolved_from_decoding:
  "1 \<le> i \<Longrightarrow> i \<le> length ps \<Longrightarrow> ps ! (i - 1) = Decoding
   \<Longrightarrow> fold promise_event evs ps ! (i - 1) = Resolved
   \<Longrightarrow> ImgError i \<in> set evs \<or> ImgLoad i False \<in> set evs
       \<or> DecodeFulfilled i \<in> set evs \<or> DecodeRejected i \<in> set evs"
proof (induction evs arbitrary: ps)
  case Nil
  then show ?case by simp
next
  case (Cons ev evs)
  let ?ps = "promise_event ev ps"
  have len: "i \<le> length ?ps" using Cons.prems(2) by (simp add: promise_event_length)
  from promise_event_from_decoding [OF Cons.prems(1-3), of ev]
  show ?case
  proof
    assume "?ps ! (i - 1) = Decoding"
    from Cons.IH [OF Cons.prems(1) len this] Cons.prems(4) show ?thesis by auto
  next
    assume "?ps ! (i - 1) = Resolved
           \<and> (ev = ImgError i \<or> ev = ImgLoad i False
               \<or> ev = DecodeFulfilled i \<or> ev = DecodeRejected i)"
    then show ?thesis by auto
  qed
qed

lemma resolved_from_pending:
  "1 \<le> i \<Longrightarrow> i \<le> length ps \<Longrightarrow> ps ! (i - 1) = Pending
   \<Longrightarrow> fold promise_event evs ps ! (i - 1) = Resolved
   \<Longrightarrow> settles i evs"
proof (induction evs arbitrary: ps)
  case Nil
  then show ?case by simp
next
  case (Cons ev evs)
  let ?ps = "promise_event ev ps"
  have len: "i \<le> length ?ps" using Cons.prems(2) by (simp add: promise_event_length)
  have run: "fold promise_event evs ?ps ! (i - 1) = Resolved" using Cons.prems(4) by simp
  from promise_event_from_pending [OF Cons.prems(1-3), of ev]
  consider (pending) "?ps ! (i - 1) = Pending"
    | (decoding) "?ps ! (i - 1) = Decoding" "ev = ImgLoad i True"
    | (resolved) "ev = ImgError i \<or> ev = ImgLoad i False"
    by blast
  then show ?case
  proof cases
    case pending
    from Cons.IH [OF Cons.prems(1) len pending run] show ?thesis by (rule settles_Cons)
  next
    case decoding
    from resolved_from_decoding [OF Cons.prems(1) len decoding(1) run]
    have "ImgError i \<in> set (ev # evs) \<or> ImgLoad i False \<in> set (ev # evs)
        \<or> occur_in_order [DecodeFulfilled i] evs \<or> occur_in_order [DecodeRejected i] evs"
      unfolding occur_in_order_single by auto
    then show ?thesis unfolding settles_cases decoding(2) by auto
  next
    case resolved
    then have "ImgError i \<in> set (ev # evs) \<or> ImgLoad i False \<in> set (ev # evs)" by auto
    then show ?thesis unfolding settles_cases by blast
  qed
qed

lemma settles_resolves:
  assumes "1 \<le> i" "i \<le> length ps" "settles i evs"
  shows "fold promise_event evs ps ! (i - 1) = Resolved"
proof -
  from assms(3) obtain out where "occur_in_order (outcome_events i out) evs"
    unfolding settles_def list_ex_iff by blast
  with assms(1,2) show ?thesis by (rule outcome_resolves)
qed

lemma preload_resolved_iff:
  "all_resolved (imagePromises (preload_run evs (preloadImages st)))
     = (\<forall>i \<in> {1..100}. settles i evs)"
proof -
  let ?ps = "imagePromises (preloadImages st)"
  have len: "length ?ps = 100" by (simp add: preloadImages_fields)
  have pending: "?ps ! (i - 1) = Pending" if "1 \<le> i" "i \<le> 100" for i
    using that by (simp add: preloadImages_def)
  have "all_resolved (fold promise_event evs ?ps) = (\<forall>i \<in> {1..100}. settles i evs)"
  proof
    assume all: "all_resolved (fold promise_event evs ?ps)"
    show "\<forall>i \<in> {1..100}. settles i evs"
    proof
      fix i :: nat assume i: "i \<in> {1..100}"
      then have "i - 1 < 100" by auto
      then have "i - 1 < length (fold promise_event evs ?ps)"
        by (simp only: fold_promise_length len)
      with all have "fold promise_event evs ?ps ! (i - 1) = Resolved"
        by (simp add: all_resolved_nth)
      with i len pending [of i] show "settles i evs"
        by (intro resolved_from_pending [of i ?ps]) simp_all
    qed
  next
    assume s: "\<forall>i \<in> {1..100}. settles i evs"
    show "all_resolved (fold promise_event evs ?ps)"
      unfolding all_resolved_nth fold_promise_length len
    proof (intro allI impI)
      fix j :: nat assume "j < 100"
      then have "settles (Suc j) evs" "1 \<le> Suc j" "Suc j \<le> length ?ps"
        using s len by simp_all
      from settles_resolves [OF this(2,3,1)] show "fold promise_event evs ?ps ! j = Resolved"
        by simp
    qed
  qed
  then show ?thesis by (simp add: preload_run_promises)
qed


lemma occur_in_order_append:
  "occur_in_order xs ys \<Longrightarrow> occur_in_order xs (ys @ zs)"
  by (induction xs ys rule: occur_in_order.induct) (auto split: if_splits)

lemma settles_append: "settles i evs \<Longrightarrow> settles i (evs @ rest)"
  unfolding settles_def list_ex_iff by (blast intro: occur_in_order_append)

text \<open>
  Claim C9. A preload started with no grace timer of an earlier preload pending. For every
  assignment of an outcome (success, success on a platform without \<open>decode\<close>, load
  failure, decode failure) to each of the 100 images, and every order in which the
  callbacks of the images arrive (each image's own callbacks in their order, anything in
  between): all 100 promises are resolved, failures included, and the grace timer that
  follows sets \<open>imagesPreloaded\<close>. After any sequence of callbacks, all 100 promises are
  resolved exactly when, for each of the 100 images, the callbacks of one of its outcomes
  have occurred; \<open>imagesPreloaded\<close> is set exactly when the grace timer has fired at a point
  before which that was so, and never without it. The grace timer is always scheduled
  with a delay of 100 ms.
\<close>

theorem preload_settles:
  assumes "\<not> grace_pending st"
  shows "((\<forall>i \<in> {1..100}. occur_in_order (outcome_events i (oc i)) evs)
            \<longrightarrow> all_resolved (imagePromises (preload_run evs (preloadImages st)))
                \<and> imagesPreloaded (preload_run (evs @ [GraceTimeout]) (preloadImages st)))
       \<and> (imagesPreloaded (preload_run evs (preloadImages st))
            \<longleftrightarrow> (\<exists>pre post. evs = pre @ GraceTimeout # post
                   \<and> all_resolved (imagePromises (preload_run pre (preloadImages st)))))
       \<and> (all_resolved (imagePromises (preload_run evs (preloadImages st)))
            \<longleftrightarrow> (\<forall>i \<in> {1..100}. settles i evs))
       \<and> (imagesPreloaded (preload_run evs (preloadImages st))
            \<longleftrightarrow> (\<exists>pre post. evs = pre @ GraceTimeout # post
                   \<and> (\<forall>i \<in> {1..100}. settles i pre)))
       \<and> (imagesPreloaded (preload_run evs (preloadImages st))
            \<longrightarrow> (\<forall>i \<in> {1..100}. settles i evs))
       \<and> (\<forall>t \<in> set (timers (preload_run evs (preloadImages st))).
             snd t = PreloadGrace \<longrightarrow> fst t = 100)"
proof -
  let ?s0 = "preloadImages st"
  have live: "(\<forall>i \<in> {1..100}. occur_in_order (outcome_events i (oc i)) evs)
            \<longrightarrow> all_resolved (imagePromises (preload_run evs ?s0))
                \<and> imagesPreloaded (preload_run (evs @ [GraceTimeout]) ?s0)"
  proof
    assume occ: "\<forall>i \<in> {1..100}. occur_in_order (outcome_events i (oc i)) evs"
    have "\<forall>i \<in> {1..length (imagePromises ?s0)}. occur_in_order (outcome_events i (oc i)) evs"
      using occ by (simp add: preloadImages_fields)
    then have "all_resolved (fold promise_event evs (imagePromises ?s0))"
      by (rule outcomes_resolve_all)
    then have res: "all_resolved (imagePromises (preload_run evs ?s0))"
      by (simp add: preload_run_promises)
    from preload_ready_after_grace [OF assms res] res
    show "all_resolved (imagePromises (preload_run evs ?s0))
                \<and> imagesPreloaded (preload_run (evs @ [GraceTimeout]) ?s0)" by simp
  qed
  have ready: "imagesPreloaded (preload_run evs ?s0)
            \<longleftrightarrow> (\<exists>pre post. evs = pre @ GraceTimeout # post
                   \<and> all_resolved (imagePromises (preload_run pre ?s0)))"
  proof
    assume "imagesPreloaded (preload_run evs ?s0)"
    then show "\<exists>pre post. evs = pre @ GraceTimeout # post
                   \<and> all_resolved (imagePromises (preload_run pre ?s0))"
      by (rule preload_ready_only_after_grace [OF assms])
  next
    assume "\<exists>pre post. evs = pre @ GraceTimeout # post
                   \<and> all_resolved (imagePromises (preload_run pre ?s0))"
    then obtain pre post where e: "evs = pre @ GraceTimeout # post"
      and r: "all_resolved (imagePromises (preload_run pre ?s0))" by blast
    from preload_ready_after_grace [OF assms r]
    have "imagesPreloaded (preload_run (pre @ [GraceTimeout]) ?s0)" .
    then have "imagesPreloaded (preload_run post (preload_run (pre @ [GraceTimeout]) ?s0))"
      by (rule preload_ready_stable)
    then show "imagesPreloaded (preload_run evs ?s0)"
      unfolding e by (simp add: preload_run_append)
  qed
  have ready': "imagesPreloaded (preload_run evs ?s0)
            \<longleftrightarrow> (\<exists>pre post. evs = pre @ GraceTimeout # post
                   \<and> (\<forall>i \<in> {1..100}. settles i pre))"
    unfolding ready preload_resolved_iff ..
  have before: "\<forall>i \<in> {1..100}. settles i evs" if "imagesPreloaded (preload_run evs ?s0)"
  proof -
    from that ready' obtain pre post where e: "evs = pre @ GraceTimeout # post"
      and s: "\<forall>i \<in> {1..100}. settles i pre" by blast
    show ?thesis unfolding e using s settles_append by blast
  qed
  have "\<forall>t \<in> set (timers ?s0). snd t = PreloadGrace \<longrightarrow> fst t = 100"
    using assms by (auto simp: preloadImages_fields grace_pending_set)
  then have delay: "\<forall>t \<in> set (timers (preload_run evs ?s0)).
             snd t = PreloadGrace \<longrightarrow> fst t = 100"
    by (rule preload_run_delay)
  from live ready preload_resolved_iff [of evs st] ready' before delay
  show ?thesis by blast
qed

theorem preload_settles_witness:
  "\<not> grace_pending (first_render 0 Map.empty)
   \<and> list_all (\<lambda>i. occur_in_order
          (outcome_events i ((\<lambda>i. if i = 100 then Success else LoadFailure) i))
          (frame_events (\<lambda>i. if i = 100 then Success else LoadFailure))) [1..<101]
   \<and> imagesPreloaded (preload_run
          (frame_events (\<lambda>i. if i = 100 then Success else LoadFailure) @ [GraceTimeout])
          (preloadImages (first_render 0 Map.empty)))
   \<and> \<not> imagesPreloaded (preload_run
          (frame_events (\<lambda>i. if i = 100 then Success else LoadFailure))
          (preloadImages (first_render 0 Map.empty)))
   \<and> \<not> settles 2 [ImgError 1, GraceTimeout]
   \<and> \<not> imagesPreloaded (preload_run [ImgError 1, GraceTimeout]
          (preloadImages (first_render 0 Map.empty)))"
proof -
  let ?oc = "\<lambda>i::nat. if i = 100 then Success else LoadFailure"
  let ?st = "first_render 0 Map.empty"
  have h1: "\<not> grace_pending ?st"
    by (simp add: grace_pending_def first_render_fields)
  have h2: "\<forall>i \<in> {1..100}. occur_in_order (outcome_events i (?oc i)) (frame_events ?oc)"
    by code_simp
  have h3: "GraceTimeout \<notin> set (frame_events ?oc)"
    by code_simp
  have h4: "\<not> settles 2 [ImgError 1, GraceTimeout]"
    by (simp add: settles_def)
  note settles = preload_settles [OF h1, of ?oc "frame_events ?oc"]
  note one = preload_settles [OF h1, of ?oc "[ImgError 1, GraceTimeout]"]
  from settles h2
  have ready: "imagesPreloaded (preload_run (frame_events ?oc @ [GraceTimeout]) (preloadImages ?st))"
    by blast
  have early: "\<not> imagesPreloaded (preload_run (frame_events ?oc) (preloadImages ?st))"
  proof
    assume "imagesPreloaded (preload_run (frame_events ?oc) (preloadImages ?st))"
    with settles obtain pre post where "frame_events ?oc = pre @ GraceTimeout # post"
      by blast
    then have "GraceTimeout \<in> set (frame_events ?oc)" by (simp only: set_append list.set) blast
    with h3 show False by contradiction
  qed
  have single: "\<not> imagesPreloaded (preload_run [ImgError 1, GraceTimeout] (preloadImages ?st))"
  proof
    assume "imagesPreloaded (preload_run [ImgError 1, GraceTimeout] (preloadImages ?st))"
    with one have "\<forall>i \<in> {1..100}. settles i [ImgError 1, GraceTimeout]" by blast
    then have "settles 2 [ImgError 1, GraceTimeout]" by simp
    with h4 show False by contradiction
  qed
  have h2': "list_all (\<lambda>i. occur_in_order (outcome_events i (?oc i)) (frame_events ?oc)) [1..<101]"
    unfolding list_all_iff using h2 by auto
  from h1 h2' ready early h4 single show ?thesis by (intro conjI)
qed

end
